theory Spec2Isabelle
  imports Complex_Main
begin

section \<open>Data model (types.ts)\<close>

text \<open>
  A JavaScript \<open>number\<close>: \<open>NaN\<close>, \<open>Infinity\<close>, or a finite double, which is a rational.
  Comparisons of doubles are exact; thresholds of the configuration are finite, so the
  comparisons below take a rational on the right, and every comparison with \<open>NaN\<close> is
  false. \<open>js_div\<close> and \<open>js_times\<close> are the exact quotient and product, with \<open>0 / 0\<close>
  being \<open>NaN\<close> and a positive number over \<open>0\<close> being \<open>Infinity\<close>; a double operation
  gives the same value where it does not round.
\<close>

datatype jsnum = NaN | PosInf | Num rat

fun num_le :: "jsnum \<Rightarrow> rat \<Rightarrow> bool" where
  "num_le (Num r) t = (r \<le> t)"
| "num_le PosInf t = False"
| "num_le NaN t = False"

fun num_ge :: "jsnum \<Rightarrow> rat \<Rightarrow> bool" where
  "num_ge (Num r) t = (t \<le> r)"
| "num_ge PosInf t = True"
| "num_ge NaN t = False"

fun num_gt :: "jsnum \<Rightarrow> rat \<Rightarrow> bool" where
  "num_gt (Num r) t = (t < r)"
| "num_gt PosInf t = True"
| "num_gt NaN t = False"

fun js_div :: "nat \<Rightarrow> nat \<Rightarrow> jsnum" where
  "js_div a b =
     (if b = 0 then (if a = 0 then NaN else PosInf) else Num (rat_of_nat a / rat_of_nat b))"

fun js_times :: "jsnum \<Rightarrow> rat \<Rightarrow> jsnum" where
  "js_times (Num r) k = Num (r * k)"
| "js_times PosInf k = PosInf"
| "js_times NaN k = NaN"

record FrameMetadata =
  deviceScaleFactor :: rat
  pageScaleFactor :: rat
  offsetTop :: rat
  offsetLeft :: rat
  scrollOffsetX :: rat
  scrollOffsetY :: rat

record ScreencastFrame =
  frameId :: int
  timestamp :: int
  data :: string
  metadata :: FrameMetadata
  hasChange :: bool
  deltaPercent :: jsnum

datatype ActionType =
    Act_screenshot | Act_left_click | Act_right_click | Act_middle_click
  | Act_double_click | Act_triple_click | Act_left_click_drag | Act_left_mouse_down
  | Act_left_mouse_up | Act_mouse_move | Act_type | Act_key | Act_scroll
  | Act_hold_key | Act_wait | Act_navigate | Act_zoom

text \<open>
  Of a \<open>BrowserAction\<close> the frame buffer reads the tag \<open>action.action\<close> only; the
  coordinates, texts and durations of the variants pass through untouched.
\<close>

record BrowserAction =
  action :: ActionType

record ActionResult =
  success :: bool
  ar_frameId :: int
  error :: "string option"
  screenshot :: "string option"
  ar_timestamp :: int
  ar_action :: BrowserAction

section \<open>FrameBuffer.ts: state\<close>

text \<open>
  \<open>beforeFrame\<close> is typed non-null in the source, but \<open>checkPendingActions\<close> fills it with
  \<open>this.getFrame(pending.frameId)!\<close>, which is \<open>null\<close> at run time once that frame has
  been evicted: the field is an option here.
\<close>

record FrameActionResult =
  far_action :: BrowserAction
  result :: ActionResult
  beforeFrame :: "ScreencastFrame option"
  afterFrame :: "ScreencastFrame option"
  causedChange :: bool
  latencyMs :: int

text \<open>
  A promise is a cell of the state, named by a number: \<open>None\<close> while it is pending, then
  settled once. The \<open>resolve\<close> and \<open>reject\<close> closures of a \<open>PendingAction\<close> are the
  number of the promise they settle; that number also gives the object its identity
  (\<open>indexOf\<close> compares references).
\<close>

datatype 'a settled = Resolved 'a | Rejected string

record PendingAction =
  pa_action :: BrowserAction
  pa_frameId :: int
  pa_timestamp :: int
  pa_promise :: nat

record FrameBufferConfig =
  maxSize :: int
  stabilityWaitMs :: int
  maxWaitMs :: int
  stabilityThreshold :: rat

definition DEFAULT_CONFIG :: FrameBufferConfig where
  "DEFAULT_CONFIG =
     \<lparr>maxSize = 10, stabilityWaitMs = 200, maxWaitMs = 2000, stabilityThreshold = 1 / 2\<rparr>"

text \<open>
  The \<open>frame_added\<close> handlers registered by \<open>waitForNextFrame\<close> and
  \<open>waitForStableFrame\<close>, named by the promise of their call. The constants a handler
  closes over are its arguments; the variables \<open>lastChangeTime\<close> and \<open>lastFrame\<close>, which
  the handler of \<open>waitForStableFrame\<close> assigns and its timeout reads, live in \<open>stableVars\<close>.
\<close>

datatype Listener =
    NextFrameHandler nat int
  | StableFrameHandler nat int

fun listener_id :: "Listener \<Rightarrow> nat" where
  "listener_id (NextFrameHandler n cur) = n"
| "listener_id (StableFrameHandler n dur) = n"

record StableVars =
  lastChangeTime :: int
  lastFrame :: "ScreencastFrame option"

text \<open>
  The callbacks handed to \<open>setTimeout\<close>, with the time they are due at. The timeout of
  \<open>registerAction\<close> closes over the pending action, the executor's result and the frame
  the action was based on.
\<close>

datatype Timer =
    ActionTimer int PendingAction ActionResult ScreencastFrame
  | NextFrameTimer int nat
  | StableFrameTimer int nat

fun due :: "Timer \<Rightarrow> int" where
  "due (ActionTimer d pa res bf) = d"
| "due (NextFrameTimer d n) = d"
| "due (StableFrameTimer d n) = d"

fun is_wait_timer :: "nat \<Rightarrow> Timer \<Rightarrow> bool" where
  "is_wait_timer n (ActionTimer d pa res bf) = False"
| "is_wait_timer n (NextFrameTimer d m) = (m = n)"
| "is_wait_timer n (StableFrameTimer d m) = (m = n)"

text \<open>
  A call of \<open>registerAction\<close> that has invoked the executor is suspended at
  \<open>await executeAction()\<close>, holding these variables. The executor is foreign code: it
  returns a result, throws, or never completes.
\<close>

record RegisterCall =
  rc_action :: BrowserAction
  rc_beforeFrame :: ScreencastFrame
  rc_startTime :: int
  rc_promise :: nat

datatype ExecutorOutcome = ExecReturned ActionResult | ExecThrew string

record FrameBuffer =
  frames :: "ScreencastFrame list"
  pendingActions :: "PendingAction list"
  inflight :: "RegisterCall list"
  listeners :: "Listener list"
  stableVars :: "nat \<Rightarrow> StableVars"
  timers :: "Timer list"
  actionPromises :: "nat \<Rightarrow> FrameActionResult settled option"
  framePromises :: "nat \<Rightarrow> ScreencastFrame settled option"
  nextId :: nat

definition new_FrameBuffer :: FrameBuffer where
  "new_FrameBuffer =
     \<lparr>frames = [], pendingActions = [], inflight = [], listeners = [],
      stableVars = (\<lambda>n. \<lparr>lastChangeTime = 0, lastFrame = None\<rparr>), timers = [],
      actionPromises = (\<lambda>n. None), framePromises = (\<lambda>n. None), nextId = 0\<rparr>"

text \<open>Settling a promise that is already settled does nothing.\<close>

definition settleAction :: "FrameBuffer \<Rightarrow> nat \<Rightarrow> FrameActionResult settled \<Rightarrow> FrameBuffer" where
  "settleAction s n out =
     (if actionPromises s n = None then s\<lparr>actionPromises := (actionPromises s)(n \<mapsto> out)\<rparr>
      else s)"

definition settleFrame :: "FrameBuffer \<Rightarrow> nat \<Rightarrow> ScreencastFrame settled \<Rightarrow> FrameBuffer" where
  "settleFrame s n out =
     (if framePromises s n = None then s\<lparr>framePromises := (framePromises s)(n \<mapsto> out)\<rparr>
      else s)"

definition off :: "FrameBuffer \<Rightarrow> nat \<Rightarrow> FrameBuffer" where
  "off s n = s\<lparr>listeners := filter (\<lambda>l. listener_id l \<noteq> n) (listeners s)\<rparr>"

definition clearTimeout :: "FrameBuffer \<Rightarrow> nat \<Rightarrow> FrameBuffer" where
  "clearTimeout s n = s\<lparr>timers := filter (\<lambda>t. \<not> is_wait_timer n t) (timers s)\<rparr>"

section \<open>FrameBuffer.ts: read operations\<close>

definition getLatestFrame :: "FrameBuffer \<Rightarrow> ScreencastFrame option" where
  "getLatestFrame s = (if length (frames s) > 0 then Some (last (frames s)) else None)"

definition getFrame :: "FrameBuffer \<Rightarrow> int \<Rightarrow> ScreencastFrame option" where
  "getFrame s fid = find (\<lambda>f. frameId f = fid) (frames s)"

definition getAllFrames :: "FrameBuffer \<Rightarrow> ScreencastFrame list" where
  "getAllFrames s = frames s"

text \<open>\<open>findIndex\<close>: the first index whose element satisfies the predicate, or \<open>-1\<close>.\<close>

fun findIndex :: "('a \<Rightarrow> bool) \<Rightarrow> 'a list \<Rightarrow> int" where
  "findIndex P [] = -1"
| "findIndex P (x # xs) =
     (if P x then 0 else (let i = findIndex P xs in if i = -1 then -1 else i + 1))"

definition getFramesSince :: "FrameBuffer \<Rightarrow> int \<Rightarrow> ScreencastFrame list" where
  "getFramesSince s fid =
     (let index = findIndex (\<lambda>f. frameId f = fid) (frames s) in
      if index = -1 then [] else drop (nat (index + 1)) (frames s))"

section \<open>FrameBuffer.ts: addFrame\<close>

text \<open>
  The trimming loop \<open>while (this.frames.length > this.config.maxSize) this.frames.shift()\<close>.
  \<open>shift\<close> on an empty array leaves it empty, so with a negative \<open>maxSize\<close> the loop
  never ends: the value is \<open>None\<close> then.
\<close>

partial_function (option) trim :: "int \<Rightarrow> ScreencastFrame list \<Rightarrow> ScreencastFrame list option" where
  "trim m fs = (if int (length fs) > m then trim m (tl fs) else Some fs)"

text \<open>The handlers, run by \<open>emit('frame_added', frame)\<close>; \<open>now\<close> is \<open>Date.now()\<close>.\<close>

fun handler :: "FrameBufferConfig \<Rightarrow> ScreencastFrame \<Rightarrow> int \<Rightarrow> FrameBuffer \<Rightarrow> Listener \<Rightarrow> FrameBuffer" where
  "handler cfg frame now s (NextFrameHandler n currentFrameId) =
     (if frameId frame > currentFrameId
      then settleFrame (off (clearTimeout s n) n) n (Resolved frame)
      else s)"
| "handler cfg frame now s (StableFrameHandler n durationMs) =
     (let s1 = s\<lparr>stableVars := (stableVars s)(n := (stableVars s n)\<lparr>lastFrame := Some frame\<rparr>)\<rparr> in
      if hasChange frame \<and> num_gt (deltaPercent frame) (stabilityThreshold cfg)
      then s1\<lparr>stableVars := (stableVars s1)(n := (stableVars s1 n)\<lparr>lastChangeTime := now\<rparr>)\<rparr>
      else if now - lastChangeTime (stableVars s1 n) \<ge> durationMs
      then settleFrame (off (clearTimeout s1 n) n) n (Resolved frame)
      else s1)"

text \<open>\<open>emit\<close> calls the handlers that were registered when it started, in their order.\<close>

definition emit_frame_added :: "FrameBufferConfig \<Rightarrow> FrameBuffer \<Rightarrow> ScreencastFrame \<Rightarrow> int \<Rightarrow> FrameBuffer" where
  "emit_frame_added cfg s frame now = foldl (handler cfg frame now) s (listeners s)"

definition eligible :: "FrameBufferConfig \<Rightarrow> ScreencastFrame \<Rightarrow> int \<Rightarrow> PendingAction \<Rightarrow> bool" where
  "eligible cfg frame now pending =
     (frameId frame > pa_frameId pending \<and>
      (let timeSinceAction = now - pa_timestamp pending in
       num_le (deltaPercent frame) (stabilityThreshold cfg) \<or>
       timeSinceAction \<ge> stabilityWaitMs cfg))"

definition resolvePending :: "ScreencastFrame \<Rightarrow> int \<Rightarrow> FrameBuffer \<Rightarrow> PendingAction \<Rightarrow> FrameBuffer" where
  "resolvePending frame now s pending =
     (if pending \<in> set (pendingActions s)
      then (let s1 = s\<lparr>pendingActions := remove1 pending (pendingActions s)\<rparr>;
                beforeFrame = getFrame s1 (pa_frameId pending)
            in settleAction s1 (pa_promise pending)
                 (Resolved \<lparr>far_action = pa_action pending,
                            result = \<lparr>success = True, ar_frameId = frameId frame, error = None,
                                      screenshot = None, ar_timestamp = now,
                                      ar_action = pa_action pending\<rparr>,
                            beforeFrame = beforeFrame,
                            afterFrame = Some frame,
                            causedChange = hasChange frame,
                            latencyMs = now - pa_timestamp pending\<rparr>))
      else s)"

definition checkPendingActions :: "FrameBufferConfig \<Rightarrow> FrameBuffer \<Rightarrow> ScreencastFrame \<Rightarrow> int \<Rightarrow> FrameBuffer" where
  "checkPendingActions cfg s frame now =
     (let toResolve = filter (eligible cfg frame now) (pendingActions s)
      in foldl (resolvePending frame now) s toResolve)"

text \<open>
  \<open>addFrame\<close>, with the readings of \<open>Date.now()\<close> during the call taken as one instant
  \<open>now\<close>. \<open>None\<close>: the trimming loop does not end.
\<close>

definition addFrame :: "FrameBufferConfig \<Rightarrow> FrameBuffer \<Rightarrow> ScreencastFrame \<Rightarrow> int \<Rightarrow> FrameBuffer option" where
  "addFrame cfg s frame now =
     (case trim (maxSize cfg) (frames s @ [frame]) of
        None \<Rightarrow> None
      | Some fs \<Rightarrow>
          Some (checkPendingActions cfg (emit_frame_added cfg (s\<lparr>frames := fs\<rparr>) frame now) frame now))"

fun addFrames :: "FrameBufferConfig \<Rightarrow> FrameBuffer \<Rightarrow> (ScreencastFrame \<times> int) list \<Rightarrow> FrameBuffer option" where
  "addFrames cfg s [] = Some s"
| "addFrames cfg s ((frame, now) # rest) =
     (case addFrame cfg s frame now of None \<Rightarrow> None | Some s' \<Rightarrow> addFrames cfg s' rest)"

section \<open>FrameBuffer.ts: registerAction\<close>

text \<open>
  \<open>registerAction\<close> runs in parts. The call reads the latest frame (without one it throws,
  so the promise of the \<open>async\<close> function is rejected), takes the start time, invokes the
  executor and is suspended: it joins \<open>inflight\<close>. When the executor completes, the body
  resumes after the \<open>await\<close>, once; until then other events run. The third part is the
  timeout callback.
\<close>

definition registerAction_call :: "FrameBuffer \<Rightarrow> BrowserAction \<Rightarrow> int \<Rightarrow> nat \<times> RegisterCall option \<times> FrameBuffer" where
  "registerAction_call s act now =
     (let n = nextId s; s1 = s\<lparr>nextId := n + 1\<rparr> in
      case getLatestFrame s of
        None \<Rightarrow> (n, None, settleAction s1 n (Rejected ''No frame available for action''))
      | Some bf \<Rightarrow>
          (let rc = \<lparr>rc_action = act, rc_beforeFrame = bf, rc_startTime = now, rc_promise = n\<rparr>
           in (n, Some rc, s1\<lparr>inflight := inflight s1 @ [rc]\<rparr>)))"

definition registerAction_resume :: "FrameBufferConfig \<Rightarrow> FrameBuffer \<Rightarrow> RegisterCall \<Rightarrow> ExecutorOutcome \<Rightarrow> int \<Rightarrow> FrameBuffer" where
  "registerAction_resume cfg s0 rc outcome now =
     (if rc \<notin> set (inflight s0) then s0
      else (let s = s0\<lparr>inflight := remove1 rc (inflight s0)\<rparr> in
        case outcome of
          ExecThrew e \<Rightarrow> settleAction s (rc_promise rc) (Rejected e)
        | ExecReturned res \<Rightarrow>
            if \<not> success res
            then settleAction s (rc_promise rc)
                   (Resolved \<lparr>far_action = rc_action rc, result = res,
                              beforeFrame = Some (rc_beforeFrame rc), afterFrame = None,
                              causedChange = False, latencyMs = now - rc_startTime rc\<rparr>)
            else if action (rc_action rc) = Act_wait \<or> action (rc_action rc) = Act_screenshot
            then settleAction s (rc_promise rc)
                   (Resolved \<lparr>far_action = rc_action rc, result = res,
                              beforeFrame = Some (rc_beforeFrame rc),
                              afterFrame = Some (rc_beforeFrame rc),
                              causedChange = False, latencyMs = now - rc_startTime rc\<rparr>)
            else (let pendingAction =
                        \<lparr>pa_action = rc_action rc, pa_frameId = frameId (rc_beforeFrame rc),
                         pa_timestamp = rc_startTime rc, pa_promise = rc_promise rc\<rparr>
                  in s\<lparr>pendingActions := pendingActions s @ [pendingAction],
                        timers := timers s @
                          [ActionTimer (now + maxWaitMs cfg) pendingAction res (rc_beforeFrame rc)]\<rparr>)))"

section \<open>FrameBuffer.ts: waitForNextFrame, waitForStableFrame, clear\<close>

definition waitForNextFrame :: "FrameBuffer \<Rightarrow> int \<Rightarrow> int \<Rightarrow> nat \<times> FrameBuffer" where
  "waitForNextFrame s timeout now =
     (let n = nextId s;
          currentFrameId = (case getLatestFrame s of None \<Rightarrow> 0 | Some f \<Rightarrow> frameId f)
      in (n, s\<lparr>nextId := n + 1,
                timers := timers s @ [NextFrameTimer (now + timeout) n],
                listeners := listeners s @ [NextFrameHandler n currentFrameId]\<rparr>))"

definition waitForStableFrame :: "FrameBuffer \<Rightarrow> int \<Rightarrow> int \<Rightarrow> int \<Rightarrow> nat \<times> FrameBuffer" where
  "waitForStableFrame s durationMs timeout now =
     (let n = nextId s
      in (n, s\<lparr>nextId := n + 1,
                stableVars := (stableVars s)
                  (n := \<lparr>lastChangeTime = now, lastFrame = getLatestFrame s\<rparr>),
                timers := timers s @ [StableFrameTimer (now + timeout) n],
                listeners := listeners s @ [StableFrameHandler n durationMs]\<rparr>))"

definition clear :: "FrameBuffer \<Rightarrow> FrameBuffer" where
  "clear s = s\<lparr>frames := [], pendingActions := []\<rparr>"

section \<open>Timers\<close>

text \<open>
  A timer that is still set fires once: it leaves the timer table and its callback runs.
  A timer that was cleared, or has fired, does nothing.
\<close>

fun callback :: "FrameBuffer \<Rightarrow> Timer \<Rightarrow> int \<Rightarrow> FrameBuffer" where
  "callback s (ActionTimer d pendingAction res bf) now =
     (if pendingAction \<in> set (pendingActions s)
      then (let s1 = s\<lparr>pendingActions := remove1 pendingAction (pendingActions s)\<rparr>;
                latestFrame = getLatestFrame s1
            in settleAction s1 (pa_promise pendingAction)
                 (Resolved \<lparr>far_action = pa_action pendingAction, result = res,
                            beforeFrame = Some bf, afterFrame = latestFrame,
                            causedChange =
                              (case latestFrame of None \<Rightarrow> False
                               | Some l \<Rightarrow> frameId l \<noteq> frameId bf),
                            latencyMs = now - pa_timestamp pendingAction\<rparr>))
      else s)"
| "callback s (NextFrameTimer d n) now =
     settleFrame (off s n) n (Rejected ''Timeout waiting for next frame'')"
| "callback s (StableFrameTimer d n) now =
     (let s1 = off s n in
      case lastFrame (stableVars s1 n) of
        Some f \<Rightarrow> settleFrame s1 n (Resolved f)
      | None \<Rightarrow> settleFrame s1 n (Rejected ''Timeout waiting for stable frame''))"

definition fireTimer :: "FrameBuffer \<Rightarrow> Timer \<Rightarrow> int \<Rightarrow> FrameBuffer" where
  "fireTimer s t now =
     (if t \<in> set (timers s) then callback (s\<lparr>timers := remove1 t (timers s)\<rparr>) t now else s)"

section \<open>Runs of the frame buffer\<close>

text \<open>
  The control thread runs one of these at a time, each to its end: a frame arrives, a
  timer fires, a caller starts a wait or an action, an executor completes and its call
  resumes, the buffer is cleared.
\<close>

datatype Event =
    EvAddFrame ScreencastFrame int
  | EvFire Timer int
  | EvWaitNext int int
  | EvWaitStable int int int
  | EvRegister BrowserAction int
  | EvResume RegisterCall ExecutorOutcome int
  | EvClear

fun step :: "FrameBufferConfig \<Rightarrow> FrameBuffer \<Rightarrow> Event \<Rightarrow> FrameBuffer option" where
  "step cfg s (EvAddFrame frame now) = addFrame cfg s frame now"
| "step cfg s (EvFire t now) = Some (fireTimer s t now)"
| "step cfg s (EvWaitNext timeout now) = Some (snd (waitForNextFrame s timeout now))"
| "step cfg s (EvWaitStable durationMs timeout now) =
     Some (snd (waitForStableFrame s durationMs timeout now))"
| "step cfg s (EvRegister act now) = Some (snd (snd (registerAction_call s act now)))"
| "step cfg s (EvResume rc outcome now) = Some (registerAction_resume cfg s rc outcome now)"
| "step cfg s EvClear = Some (clear s)"

fun run :: "FrameBufferConfig \<Rightarrow> FrameBuffer \<Rightarrow> Event list \<Rightarrow> FrameBuffer option" where
  "run cfg s [] = Some s"
| "run cfg s (e # es) = (case step cfg s e of None \<Rightarrow> None | Some s' \<Rightarrow> run cfg s' es)"

text \<open>
  What holds of every state a run reaches from a new buffer: the promises of the pending
  actions and of the suspended calls are distinct, allocated and not settled, and no
  promise beyond the allocated ones is settled.
\<close>

definition wf :: "FrameBuffer \<Rightarrow> bool" where
  "wf s \<longleftrightarrow>
     distinct (map pa_promise (pendingActions s) @ map rc_promise (inflight s)) \<and>
     list_all (\<lambda>p. actionPromises s (pa_promise p) = None \<and> pa_promise p < nextId s)
       (pendingActions s) \<and>
     list_all (\<lambda>rc. actionPromises s (rc_promise rc) = None \<and> rc_promise rc < nextId s)
       (inflight s) \<and>
     (\<forall>n \<ge> nextId s. actionPromises s n = None)"

text \<open>
  A promise that nothing in the state refers to any more: it is not settled, and neither a
  pending action nor a suspended call holds it.
\<close>

definition abandoned :: "nat \<Rightarrow> FrameBuffer \<Rightarrow> bool" where
  "abandoned n s \<longleftrightarrow>
     actionPromises s n = None \<and> n < nextId s \<and>
     n \<notin> pa_promise ` set (pendingActions s) \<and> n \<notin> rc_promise ` set (inflight s)"

text \<open>
  The same for the waits: the handlers registered are distinct, their promises are not
  settled, and the waits named by handlers and timers have been allocated.
\<close>

fun timer_fresh :: "nat \<Rightarrow> Timer \<Rightarrow> bool" where
  "timer_fresh k (ActionTimer d pa res bf) = True"
| "timer_fresh k (NextFrameTimer d n) = (n < k)"
| "timer_fresh k (StableFrameTimer d n) = (n < k)"

definition wfw :: "FrameBuffer \<Rightarrow> bool" where
  "wfw s \<longleftrightarrow>
     distinct (map listener_id (listeners s)) \<and>
     list_all (\<lambda>l. framePromises s (listener_id l) = None \<and> listener_id l < nextId s)
       (listeners s) \<and>
     list_all (timer_fresh (nextId s)) (timers s) \<and>
     (\<forall>n \<ge> nextId s. framePromises s n = None)"

section \<open>StreamProcessor.ts\<close>

text \<open>
  The image libraries are not part of the repository; the stream processor takes them
  as parameters. \<open>fromBase64\<close> is \<open>Buffer.from(_, 'base64')\<close>; \<open>sharp_raw\<close> decodes a
  JPEG to raw RGBA with its dimensions and \<open>pixelmatch\<close> counts the differing pixels,
  each \<open>None\<close> where the library throws. The arithmetic of IEEE doubles is a parameter
  as well: \<open>percentage d t\<close> is the double that \<open>(d / t) * 100\<close> evaluates to, which
  differs from the exact quotient where the result is rounded (\<open>(29 / 100) * 100\<close> is
  below 29).
\<close>

type_synonym Buffer = "char list"

record RawImage =
  width :: nat
  height :: nat
  raw :: Buffer

record Libs =
  fromBase64 :: "string \<Rightarrow> Buffer"
  sharp_raw :: "Buffer \<Rightarrow> RawImage option"
  pixelmatch :: "Buffer \<Rightarrow> Buffer \<Rightarrow> nat \<Rightarrow> nat \<Rightarrow> nat option"
  percentage :: "nat \<Rightarrow> nat \<Rightarrow> jsnum"

record StreamConfig =
  viewportWidth :: int
  viewportHeight :: int
  quality :: int
  everyNthFrame :: int
  deltaThreshold :: rat
  keepAliveMs :: int
  maxBufferSize :: int

record CDPMetadata =
  cdp_offsetTop :: rat
  cdp_pageScaleFactor :: rat
  cdp_deviceWidth :: rat
  cdp_deviceHeight :: rat
  cdp_scrollOffsetX :: rat
  cdp_scrollOffsetY :: rat
  cdp_timestamp :: rat

record FrameComparisonResult =
  cmp_hasChange :: bool
  cmp_deltaPercent :: jsnum
  diffPixelCount :: nat
  totalPixels :: nat

text \<open>
  The processor is an \<open>EventEmitter\<close>: \<open>errorListener\<close> says that a listener for its
  \<open>error\<close> event is attached (the repository attaches none). Without one,
  \<open>emit('error', _)\<close> throws.
\<close>

record StreamProcessor =
  cdpSession :: bool
  errorListener :: bool
  isStreaming :: bool
  sp_frameId :: int
  lastFrameData :: "Buffer option"
  lastFrameTime :: int
  lastSentFrameTime :: int
  pendingFrame :: "ScreencastFrame option"
  frameCount :: int
  droppedFrameCount :: int
  totalDeltaTime :: int

definition assume_change :: FrameComparisonResult where
  "assume_change =
     \<lparr>cmp_hasChange = True, cmp_deltaPercent = Num 100, diffPixelCount = 0, totalPixels = 0\<rparr>"

definition compareFrames :: "Libs \<Rightarrow> StreamConfig \<Rightarrow> Buffer \<Rightarrow> Buffer \<Rightarrow> FrameComparisonResult" where
  "compareFrames lib cfg prevBuffer currBuffer =
     (case (sharp_raw lib prevBuffer, sharp_raw lib currBuffer) of
        (Some prevRaw, Some currRaw) \<Rightarrow>
          if width prevRaw \<noteq> width currRaw \<or> height prevRaw \<noteq> height currRaw
          then assume_change
          else (let w = width prevRaw; h = height prevRaw; total = w * h in
                case pixelmatch lib (raw prevRaw) (raw currRaw) w h of
                  None \<Rightarrow> assume_change
                | Some diffCount \<Rightarrow>
                    (let dp = percentage lib diffCount total in
                     \<lparr>cmp_hasChange = num_ge dp (deltaThreshold cfg), cmp_deltaPercent = dp,
                      diffPixelCount = diffCount, totalPixels = total\<rparr>))
      | _ \<Rightarrow> assume_change)"

text \<open>
  \<open>createFrame\<close> is suspended once, at \<open>await this.compareFrames(_, _)\<close>, and only on
  the path that compares. Its first part increments \<open>frameId\<close>, decodes the buffer and
  passes the baseline it reads then to the comparison, whose answer depends on the two
  buffers only. Its second part stores the buffer as the baseline and builds the frame,
  reading \<open>this.frameId\<close> again. What the call holds in between:
\<close>

record FrameInProgress =
  fp_data :: string
  fp_metadata :: CDPMetadata
  fp_buffer :: Buffer
  fp_comparison :: FrameComparisonResult

definition createFrame_begin :: "Libs \<Rightarrow> StreamConfig \<Rightarrow> StreamProcessor \<Rightarrow> string \<Rightarrow> CDPMetadata \<Rightarrow> bool \<Rightarrow> FrameInProgress \<times> StreamProcessor" where
  "createFrame_begin lib cfg s base64Data meta forceChange =
     (let s1 = s\<lparr>sp_frameId := sp_frameId s + 1\<rparr>;
          buffer = fromBase64 lib base64Data;
          comparison =
            (if forceChange then assume_change
             else case lastFrameData s1 of
                    None \<Rightarrow> assume_change
                  | Some prev \<Rightarrow> compareFrames lib cfg prev buffer)
      in (\<lparr>fp_data = base64Data, fp_metadata = meta, fp_buffer = buffer,
           fp_comparison = comparison\<rparr>, s1))"

text \<open>\<open>now\<close> is the \<open>Date.now()\<close> of the frame's timestamp.\<close>

definition createFrame_end :: "StreamProcessor \<Rightarrow> FrameInProgress \<Rightarrow> int \<Rightarrow> ScreencastFrame \<times> StreamProcessor" where
  "createFrame_end s c now =
     (let s2 = s\<lparr>lastFrameData := Some (fp_buffer c)\<rparr>;
          frameMetadata =
            \<lparr>deviceScaleFactor = 1, pageScaleFactor = cdp_pageScaleFactor (fp_metadata c),
             offsetTop = cdp_offsetTop (fp_metadata c), offsetLeft = 0,
             scrollOffsetX = cdp_scrollOffsetX (fp_metadata c),
             scrollOffsetY = cdp_scrollOffsetY (fp_metadata c)\<rparr>
      in (\<lparr>frameId = sp_frameId s2, timestamp = now, data = fp_data c,
           metadata = frameMetadata, hasChange = cmp_hasChange (fp_comparison c),
           deltaPercent = cmp_deltaPercent (fp_comparison c)\<rparr>, s2))"

text \<open>
  A call of \<open>createFrame\<close> that no other call overlaps: the forced path and the first
  frame always (they do not suspend), the comparing path when nothing runs during the
  comparison.
\<close>

definition createFrame :: "Libs \<Rightarrow> StreamConfig \<Rightarrow> StreamProcessor \<Rightarrow> string \<Rightarrow> CDPMetadata \<Rightarrow> bool \<Rightarrow> int \<Rightarrow> ScreencastFrame \<times> StreamProcessor" where
  "createFrame lib cfg s base64Data meta forceChange now =
     (let (c, s1) = createFrame_begin lib cfg s base64Data meta forceChange
      in createFrame_end s1 c now)"

text \<open>
  \<open>handleScreencastFrame\<close>, in the same two parts: up to the suspension of its
  \<open>createFrame\<close>, and from there on. The first is \<open>None\<close> when there is no session. The
  second answers the frame given to \<open>emitFrame\<close>, \<open>None\<close> when the frame is dropped.
  \<open>now\<close> is the reading at the start of the handler.
\<close>

record HandlerInProgress =
  hp_frame :: FrameInProgress
  hp_now :: int
  hp_timeSinceLastFrame :: int

definition handleScreencastFrame_begin :: "Libs \<Rightarrow> StreamConfig \<Rightarrow> StreamProcessor \<Rightarrow> string \<Rightarrow> CDPMetadata \<Rightarrow> int \<Rightarrow> (HandlerInProgress \<times> StreamProcessor) option" where
  "handleScreencastFrame_begin lib cfg s eventData meta now =
     (if \<not> cdpSession s then None
      else (let timeSinceLastFrame = now - lastFrameTime s;
                s1 = s\<lparr>frameCount := frameCount s + 1, lastFrameTime := now\<rparr>;
                (c, s2) = createFrame_begin lib cfg s1 eventData meta False
            in Some (\<lparr>hp_frame = c, hp_now = now, hp_timeSinceLastFrame = timeSinceLastFrame\<rparr>,
                     s2)))"

definition handleScreencastFrame_end :: "StreamConfig \<Rightarrow> StreamProcessor \<Rightarrow> HandlerInProgress \<Rightarrow> int \<Rightarrow> StreamProcessor \<times> ScreencastFrame option" where
  "handleScreencastFrame_end cfg s h tnow =
     (let (frame, s2) = createFrame_end s (hp_frame h) tnow;
          timeSinceLastSent = hp_now h - lastSentFrameTime s2;
          shouldSend = (hasChange frame \<or> timeSinceLastSent \<ge> keepAliveMs cfg)
      in if shouldSend
         then (s2\<lparr>lastSentFrameTime := hp_now h,
                   totalDeltaTime := totalDeltaTime s2 + hp_timeSinceLastFrame h,
                   pendingFrame := Some frame\<rparr>, Some frame)
         else (s2\<lparr>droppedFrameCount := droppedFrameCount s2 + 1\<rparr>, None))"

text \<open>A handler that no other handler or capture overlaps.\<close>

definition handleScreencastFrame :: "Libs \<Rightarrow> StreamConfig \<Rightarrow> StreamProcessor \<Rightarrow> string \<Rightarrow> CDPMetadata \<Rightarrow> int \<Rightarrow> int \<Rightarrow> StreamProcessor \<times> ScreencastFrame option" where
  "handleScreencastFrame lib cfg s eventData meta now tnow =
     (case handleScreencastFrame_begin lib cfg s eventData meta now of
        None \<Rightarrow> (s, None)
      | Some (h, s1) \<Rightarrow> handleScreencastFrame_end cfg s1 h tnow)"



text \<open>
  The pixel comparison of two buffers can be performed: both decode, to the same
  dimensions, and \<open>pixelmatch\<close> answers.
\<close>

definition comparable :: "Libs \<Rightarrow> Buffer \<Rightarrow> Buffer \<Rightarrow> bool" where
  "comparable lib prevBuffer currBuffer =
     (case (sharp_raw lib prevBuffer, sharp_raw lib currBuffer) of
        (Some prevRaw, Some currRaw) \<Rightarrow>
          width prevRaw = width currRaw \<and> height prevRaw = height currRaw \<and>
          pixelmatch lib (raw prevRaw) (raw currRaw) (width prevRaw) (height prevRaw) \<noteq> None
      | _ \<Rightarrow> False)"

section \<open>Sample values\<close>

definition noMetadata :: FrameMetadata where
  "noMetadata =
     \<lparr>deviceScaleFactor = 1, pageScaleFactor = 1, offsetTop = 0, offsetLeft = 0,
      scrollOffsetX = 0, scrollOffsetY = 0\<rparr>"

definition sampleFrame :: "int \<Rightarrow> bool \<Rightarrow> jsnum \<Rightarrow> ScreencastFrame" where
  "sampleFrame i ch dp =
     \<lparr>frameId = i, timestamp = 0, data = [], metadata = noMetadata, hasChange = ch,
      deltaPercent = dp\<rparr>"

definition clickAction :: BrowserAction where
  "clickAction = \<lparr>action = Act_left_click\<rparr>"

definition okResult :: ActionResult where
  "okResult =
     \<lparr>success = True, ar_frameId = 1, error = None, screenshot = None, ar_timestamp = 5,
      ar_action = clickAction\<rparr>"

definition pendingClick :: PendingAction where
  "pendingClick = \<lparr>pa_action = clickAction, pa_frameId = 1, pa_timestamp = 0, pa_promise = 0\<rparr>"

definition clickCall :: RegisterCall where
  "clickCall =
     \<lparr>rc_action = clickAction, rc_beforeFrame = sampleFrame 1 True (Num 100), rc_startTime = 0,
      rc_promise = 0\<rparr>"

definition waitingBuffer :: FrameBuffer where
  "waitingBuffer =
     new_FrameBuffer
       \<lparr>frames := [sampleFrame 1 True (Num 100)],
        pendingActions := [pendingClick],
        timers := [ActionTimer 2005 pendingClick okResult (sampleFrame 1 True (Num 100))],
        nextId := 1\<rparr>"

definition calledBuffer :: FrameBuffer where
  "calledBuffer =
     new_FrameBuffer
       \<lparr>frames := [sampleFrame 1 True (Num 100)], inflight := [clickCall], nextId := 1\<rparr>"

definition failedResult :: ActionResult where
  "failedResult =
     \<lparr>success = False, ar_frameId = 1, error = Some ''Element not found'', screenshot = None,
      ar_timestamp = 5, ar_action = clickAction\<rparr>"

text \<open>
  Stand-ins for the image libraries, to run the stream processor on small inputs: a
  buffer is an image one pixel high with a pixel per byte, the empty buffer does not
  decode. The percentage is the exact one, which is the double's value on the inputs
  used below (0 of 4 and 2 of 4 pixels).
\<close>

definition toyLibs :: Libs where
  "toyLibs =
     \<lparr>fromBase64 = (\<lambda>d. d),
      sharp_raw = (\<lambda>b. if b = [] then None else Some \<lparr>width = length b, height = 1, raw = b\<rparr>),
      pixelmatch = (\<lambda>a b w h.
        if length a = w * h \<and> length b = w * h
        then Some (length (filter (\<lambda>(x, y). x \<noteq> y) (zip a b))) else None),
      percentage = (\<lambda>d t. js_times (js_div d t) 100)\<rparr>"

definition streamConfig :: StreamConfig where
  "streamConfig =
     \<lparr>viewportWidth = 1280, viewportHeight = 800, quality = 80, everyNthFrame = 1,
      deltaThreshold = 2, keepAliveMs = 2000, maxBufferSize = 10\<rparr>"

definition idleProcessor :: StreamProcessor where
  "idleProcessor =
     \<lparr>cdpSession = True, errorListener = False, isStreaming = True, sp_frameId = 7, lastFrameData = Some ''abcd'',
      lastFrameTime = 100, lastSentFrameTime = 0, pendingFrame = None, frameCount = 7,
      droppedFrameCount = 6, totalDeltaTime = 0\<rparr>"

definition noScroll :: CDPMetadata where
  "noScroll =
     \<lparr>cdp_offsetTop = 0, cdp_pageScaleFactor = 1, cdp_deviceWidth = 1280,
      cdp_deviceHeight = 800, cdp_scrollOffsetX = 0, cdp_scrollOffsetY = 0, cdp_timestamp = 0\<rparr>"

definition stableWaiting :: FrameBuffer where
  "stableWaiting =
     snd (waitForStableFrame
            (new_FrameBuffer\<lparr>frames := [sampleFrame 1 True (Num 100)]\<rparr>) 500 5000 0)"

section \<open>The buffer of frames\<close>

subsection \<open>The trimming loop\<close>

lemma trim_nonneg: "0 \<le> m \<Longrightarrow> trim m fs = Some (drop (length fs - nat m) fs)"
proof (induction fs)
  case Nil
  then show ?case by (subst trim.simps) simp
next
  case (Cons f fs)
  show ?case
  proof (cases "int (length (f # fs)) > m")
    case True
    with Cons.prems have "Suc (length fs) - nat m = Suc (length fs - nat m)"
      by (simp add: Suc_diff_le nat_le_iff)
    with True Cons.IH [OF Cons.prems] show ?thesis by (subst trim.simps) simp
  next
    case False
    then have "length (f # fs) - nat m = 0" by simp
    with False show ?thesis by (subst trim.simps) simp
  qed
qed

lemma trim_result_bound: "trim m fs = Some r \<Longrightarrow> int (length r) \<le> m"
  by (rule trim.raw_induct [where P = "\<lambda>m fs r. int (length r) \<le> m" and m = m and fs = fs])
     (auto split: if_splits)

lemma trim_negative: "m < 0 \<Longrightarrow> trim m fs = None"
  using trim_result_bound [of m fs] by (cases "trim m fs") auto



lemma frames_settleAction [simp]: "frames (settleAction s n out) = frames s"
  by (simp add: settleAction_def)

lemma frames_settleFrame [simp]: "frames (settleFrame s n out) = frames s"
  by (simp add: settleFrame_def)

lemma frames_handler [simp]: "frames (handler cfg frame now s l) = frames s"
  by (cases l) (simp_all add: off_def clearTimeout_def Let_def)

lemma frames_emit [simp]: "frames (emit_frame_added cfg s frame now) = frames s"
proof -
  have "frames (foldl (handler cfg frame now) s ls) = frames s" for ls
    by (induction ls arbitrary: s) simp_all
  then show ?thesis by (simp add: emit_frame_added_def)
qed

lemma frames_resolvePending [simp]: "frames (resolvePending frame now s p) = frames s"
  by (simp add: resolvePending_def Let_def)

lemma frames_checkPendingActions [simp]: "frames (checkPendingActions cfg s frame now) = frames s"
proof -
  have "frames (foldl (resolvePending frame now) s ps) = frames s" for ps
    by (induction ps arbitrary: s) simp_all
  then show ?thesis by (simp add: checkPendingActions_def)
qed

lemma addFrame_nonneg:
  assumes "0 \<le> maxSize cfg"
  shows "\<exists>s'. addFrame cfg s frame now = Some s' \<and>
           frames s' = drop (Suc (length (frames s)) - nat (maxSize cfg)) (frames s @ [frame])"
  using assms by (simp add: addFrame_def trim_nonneg)

lemma keep_last_append:
  "drop (length (drop (length xs - m) xs @ ys) - m) (drop (length xs - m) xs @ ys)
     = drop (length (xs @ ys) - m) (xs @ ys)"
  by (cases "length xs \<le> m") (auto simp: add.commute)


lemma addFrames_nonneg:
  assumes "0 \<le> maxSize cfg" and "length (frames s) \<le> nat (maxSize cfg)"
  shows "\<exists>s'. addFrames cfg s calls = Some s' \<and>
           frames s' =
             drop (length (frames s @ map fst calls) - nat (maxSize cfg)) (frames s @ map fst calls)"
  using assms(2)
proof (induction calls arbitrary: s)
  case Nil
  then show ?case by simp
next
  case (Cons c calls)
  let ?m = "nat (maxSize cfg)"
  obtain frame now where c: "c = (frame, now)" by (cases c)
  from addFrame_nonneg [OF assms(1), of s frame now] obtain s1 where
    s1: "addFrame cfg s frame now = Some s1"
    and f1: "frames s1 = drop (length (frames s @ [frame]) - ?m) (frames s @ [frame])"
    by auto
  have "length (frames s1) \<le> ?m" by (simp add: f1)
  from Cons.IH [OF this] obtain s' where
    s': "addFrames cfg s1 calls = Some s'"
    and f': "frames s' = drop (length (frames s1 @ map fst calls) - ?m) (frames s1 @ map fst calls)"
    by blast
  have "frames s' = drop (length ((frames s @ [frame]) @ map fst calls) - ?m)
                     ((frames s @ [frame]) @ map fst calls)"
    unfolding f' by (subst f1, subst f1, rule keep_last_append)
  then show ?case using s1 s' by (simp add: c)
qed

lemma trim_small: "0 \<le> m \<Longrightarrow> int (length fs) \<le> m \<Longrightarrow> trim m fs = Some fs"
  by (simp add: trim_nonneg)

text \<open>
  Claim C5, as the code has it. For every sequence of \<open>addFrame\<close> calls on a fresh (or
  cleared) buffer whose \<open>maxSize\<close> is not negative, every call returns, and afterwards
  the buffer has at most \<open>maxSize\<close> frames: exactly the last \<open>maxSize\<close> frames added, in
  the order in which they were added, the ones before them having been evicted oldest
  first. \<open>addFrame\<close> neither reads nor orders the ids: the buffer is in strictly ascending
  id order exactly when the frames it holds were added in that order. The sequence is
  arbitrary, so this holds after each of its calls.
\<close>

theorem C5_buffer_holds_newest_frames:
  assumes "0 \<le> maxSize cfg" and "frames s = []"
  shows "\<exists>s'. addFrames cfg s calls = Some s' \<and>
           int (length (frames s')) \<le> maxSize cfg \<and>
           frames s' = drop (length calls - nat (maxSize cfg)) (map fst calls) \<and>
           (\<exists>evicted. map fst calls = evicted @ frames s') \<and>
           (sorted_wrt (<) (map frameId (frames s')) \<longleftrightarrow>
              sorted_wrt (<) (drop (length calls - nat (maxSize cfg))
                                (map (\<lambda>c. frameId (fst c)) calls)))"
proof -
  from addFrames_nonneg [OF assms(1), of s calls] assms(2) obtain s' where
    s': "addFrames cfg s calls = Some s'"
    and f': "frames s' = drop (length calls - nat (maxSize cfg)) (map fst calls)"
    by auto
  have len: "int (length (frames s')) \<le> maxSize cfg"
    using assms(1) by (simp add: f')
  have ev: "map fst calls = take (length calls - nat (maxSize cfg)) (map fst calls) @ frames s'"
    by (simp add: f')
  have "map frameId (frames s')
          = drop (length calls - nat (maxSize cfg)) (map (\<lambda>c. frameId (fst c)) calls)"
    by (simp add: f' drop_map)
  then have asc: "sorted_wrt (<) (map frameId (frames s')) \<longleftrightarrow>
              sorted_wrt (<) (drop (length calls - nat (maxSize cfg))
                                (map (\<lambda>c. frameId (fst c)) calls))"
    by simp
  from s' len f' ev asc show ?thesis by blast
qed

text \<open>
  Claim C5 as written fails in its last part: frames added with the ids 5 and 3 are
  buffered as 5, 3; and frames with the ids 1, 3, 3, which is what the stream processor
  delivers when two of its handlers overlap, are buffered with the id 3 twice.
\<close>

theorem C5_buffer_holds_newest_frames_counterexample:
  "map_option frames
     (addFrames DEFAULT_CONFIG new_FrameBuffer
        [(sampleFrame 5 True (Num 100), 0), (sampleFrame 3 True (Num 100), 10)])
     = Some [sampleFrame 5 True (Num 100), sampleFrame 3 True (Num 100)] \<and>
   \<not> sorted_wrt (<) (map frameId [sampleFrame 5 True (Num 100), sampleFrame 3 True (Num 100)]) \<and>
   map_option frames
     (addFrames DEFAULT_CONFIG new_FrameBuffer
        [(sampleFrame 1 True (Num 100), 0), (sampleFrame 3 True (Num 4), 10),
         (sampleFrame 3 True (Num 4), 20)])
     = Some [sampleFrame 1 True (Num 100), sampleFrame 3 True (Num 4), sampleFrame 3 True (Num 4)] \<and>
   \<not> sorted_wrt (<) (map frameId
        [sampleFrame 1 True (Num 100), sampleFrame 3 True (Num 4), sampleFrame 3 True (Num 4)])"
  by (simp add: addFrame_def trim_small DEFAULT_CONFIG_def new_FrameBuffer_def
      emit_frame_added_def checkPendingActions_def sampleFrame_def Let_def)

text \<open>
  Three frames with ascending ids added to a buffer of capacity two: the last two are
  held, in ascending order.
\<close>

theorem C5_buffer_holds_newest_frames_witness:
  "0 \<le> maxSize (DEFAULT_CONFIG\<lparr>maxSize := 2\<rparr>) \<and> frames new_FrameBuffer = [] \<and>
   (\<exists>s'. addFrames (DEFAULT_CONFIG\<lparr>maxSize := 2\<rparr>) new_FrameBuffer
            [(sampleFrame 1 True (Num 100), 10), (sampleFrame 2 True (Num 3), 20),
             (sampleFrame 3 False (Num 0), 30)] = Some s' \<and>
         frames s' = [sampleFrame 2 True (Num 3), sampleFrame 3 False (Num 0)] \<and>
         sorted_wrt (<) (map frameId (frames s')))"
proof -
  let ?cfg = "DEFAULT_CONFIG\<lparr>maxSize := 2\<rparr>"
  let ?calls = "[(sampleFrame 1 True (Num 100), 10), (sampleFrame 2 True (Num 3), 20),
                 (sampleFrame 3 False (Num 0), 30 :: int)]"
  have h1: "0 \<le> maxSize ?cfg" by (simp add: DEFAULT_CONFIG_def)
  have h2: "frames new_FrameBuffer = []" by (simp add: new_FrameBuffer_def)
  from C5_buffer_holds_newest_frames [OF h1 h2, of ?calls] obtain s' where
    r: "addFrames ?cfg new_FrameBuffer ?calls = Some s'"
    and f: "frames s' = drop (length ?calls - nat (maxSize ?cfg)) (map fst ?calls)"
    and o: "sorted_wrt (<) (map frameId (frames s')) \<longleftrightarrow>
              sorted_wrt (<) (drop (length ?calls - nat (maxSize ?cfg))
                                (map (\<lambda>c. frameId (fst c)) ?calls))"
    by blast
  have f': "frames s' = [sampleFrame 2 True (Num 3), sampleFrame 3 False (Num 0)]"
    using f by (simp add: DEFAULT_CONFIG_def)
  have "sorted_wrt (<) (drop (length ?calls - nat (maxSize ?cfg))
                                (map (\<lambda>c. frameId (fst c)) ?calls))"
    by (simp add: sampleFrame_def DEFAULT_CONFIG_def)
  with o have "sorted_wrt (<) (map frameId (frames s'))" by simp
  with h1 h2 r f' show ?thesis by blast
qed

subsection \<open>getFramesSince\<close>

lemma findIndex_nonneg: "findIndex P xs \<noteq> -1 \<Longrightarrow> 0 \<le> findIndex P xs"
  by (induction xs) (auto simp: Let_def split: if_splits)

lemma findIndex_none: "findIndex P xs = -1 \<longleftrightarrow> (\<forall>x \<in> set xs. \<not> P x)"
proof (induction xs)
  case Nil
  show ?case by simp
next
  case (Cons a xs)
  have "findIndex P xs + 1 \<noteq> -1" using findIndex_nonneg [of P xs] by (cases "findIndex P xs = -1") auto
  with Cons show ?case by (auto simp: Let_def)
qed

lemma drop_after_first:
  "sorted_wrt (<) (map frameId xs) \<Longrightarrow> findIndex (\<lambda>f. frameId f = c) xs \<noteq> -1 \<Longrightarrow>
   drop (nat (findIndex (\<lambda>f. frameId f = c) xs + 1)) xs = filter (\<lambda>f. frameId f > c) xs"
proof (induction xs)
  case Nil
  then show ?case by simp
next
  case (Cons x xs)
  show ?case
  proof (cases "frameId x = c")
    case True
    with Cons.prems(1) have "\<forall>y \<in> set xs. c < frameId y" by auto
    then have "filter (\<lambda>f. frameId f > c) xs = xs" by (simp add: filter_id_conv)
    with True show ?thesis by simp
  next
    case False
    with Cons.prems(2) have ne: "findIndex (\<lambda>f. frameId f = c) xs \<noteq> -1"
      by (auto simp: Let_def split: if_splits)
    then obtain y where y: "y \<in> set xs" "frameId y = c" by (auto simp: findIndex_none)
    with Cons.prems(1) have "frameId x < c" by auto
    moreover from Cons.prems(1) have "sorted_wrt (<) (map frameId xs)" by simp
    moreover have "nat (findIndex (\<lambda>f. frameId f = c) xs + 1 + 1)
                     = Suc (nat (findIndex (\<lambda>f. frameId f = c) xs + 1))"
      using findIndex_nonneg [OF ne] by simp
    ultimately show ?thesis using False ne Cons.IH by (simp add: Let_def)
  qed
qed

lemma drop_findIndex:
  "findIndex P xs \<noteq> -1 \<Longrightarrow>
   drop (nat (findIndex P xs + 1)) xs = tl (dropWhile (\<lambda>x. \<not> P x) xs)"
proof (induction xs)
  case Nil
  then show ?case by simp
next
  case (Cons x xs)
  show ?case
  proof (cases "P x")
    case True
    then show ?thesis by simp
  next
    case False
    with Cons.prems have ne: "findIndex P xs \<noteq> -1"
      by (auto simp: Let_def split: if_splits)
    have "nat (findIndex P xs + 1 + 1) = Suc (nat (findIndex P xs + 1))"
      using findIndex_nonneg [OF ne] by simp
    with False ne Cons.IH show ?thesis by (simp add: Let_def)
  qed
qed

text \<open>
  Claim C9, as the code has it. \<open>getFramesSince\<close> looks for the first buffered frame
  whose id is the cutoff. When there is one, it returns the frames buffered after it, in
  buffer order; in a buffer in strictly ascending id order these are exactly the frames
  whose id is greater than the cutoff. When there is none (it has been evicted, or never
  existed) the guard \<open>if (index === -1) return []\<close> answers the empty list.
\<close>

theorem C9_getFramesSince:
  "getFramesSince s c =
     (if c \<in> frameId ` set (frames s)
      then tl (dropWhile (\<lambda>f. frameId f \<noteq> c) (frames s)) else []) \<and>
   (sorted_wrt (<) (map frameId (frames s)) \<longrightarrow> c \<in> frameId ` set (frames s) \<longrightarrow>
      getFramesSince s c = filter (\<lambda>f. frameId f > c) (frames s))"
proof (cases "findIndex (\<lambda>f. frameId f = c) (frames s) = -1")
  case True
  then have "c \<notin> frameId ` set (frames s)" by (auto simp: findIndex_none)
  with True show ?thesis by (simp add: getFramesSince_def)
next
  case False
  then have "c \<in> frameId ` set (frames s)" by (auto simp: findIndex_none)
  with False drop_findIndex [OF False] drop_after_first [OF _ False] show ?thesis
    by (simp add: getFramesSince_def Let_def)
qed

text \<open>
  Claim C9 as written fails: with frames 2 and 3 buffered and the cutoff 1, which is not
  in the buffer, the answer is empty although both frames have a greater id.
\<close>

theorem C9_getFramesSince_counterexample:
  "getFramesSince (new_FrameBuffer\<lparr>frames := [sampleFrame 2 True (Num 3), sampleFrame 3 False (Num 0)]\<rparr>) 1 = [] \<and>
   filter (\<lambda>f. frameId f > 1)
     (frames (new_FrameBuffer\<lparr>frames := [sampleFrame 2 True (Num 3), sampleFrame 3 False (Num 0)]\<rparr>))
     = [sampleFrame 2 True (Num 3), sampleFrame 3 False (Num 0)]"
  by (simp add: getFramesSince_def new_FrameBuffer_def sampleFrame_def)

text \<open>
  With frames 2, 3 and 5 buffered: the cutoff 3 gives frame 5, the cutoff 4 nothing. With
  frames 1, 3 and 3 buffered, the cutoff 3 gives the second frame 3.
\<close>

theorem C9_getFramesSince_witness:
  "sorted_wrt (<) (map frameId (frames (new_FrameBuffer\<lparr>frames :=
      [sampleFrame 2 True (Num 3), sampleFrame 3 False (Num 0), sampleFrame 5 False (Num 0)]\<rparr>))) \<and>
   3 \<in> frameId ` set (frames (new_FrameBuffer\<lparr>frames :=
      [sampleFrame 2 True (Num 3), sampleFrame 3 False (Num 0), sampleFrame 5 False (Num 0)]\<rparr>)) \<and>
   getFramesSince (new_FrameBuffer\<lparr>frames :=
      [sampleFrame 2 True (Num 3), sampleFrame 3 False (Num 0), sampleFrame 5 False (Num 0)]\<rparr>) 3
     = [sampleFrame 5 False (Num 0)] \<and>
   getFramesSince (new_FrameBuffer\<lparr>frames :=
      [sampleFrame 2 True (Num 3), sampleFrame 3 False (Num 0), sampleFrame 5 False (Num 0)]\<rparr>) 4
     = [] \<and>
   getFramesSince (new_FrameBuffer\<lparr>frames :=
      [sampleFrame 1 True (Num 100), sampleFrame 3 True (Num 4), sampleFrame 3 False (Num 0)]\<rparr>) 3
     = [sampleFrame 3 False (Num 0)]"
proof -
  let ?b = "new_FrameBuffer\<lparr>frames :=
      [sampleFrame 2 True (Num 3), sampleFrame 3 False (Num 0), sampleFrame 5 False (Num 0)]\<rparr>"
  let ?d = "new_FrameBuffer\<lparr>frames :=
      [sampleFrame 1 True (Num 100), sampleFrame 3 True (Num 4), sampleFrame 3 False (Num 0)]\<rparr>"
  have so: "sorted_wrt (<) (map frameId (frames ?b))"
    by (simp add: new_FrameBuffer_def sampleFrame_def)
  have mem: "3 \<in> frameId ` set (frames ?b)"
    by (simp add: new_FrameBuffer_def sampleFrame_def)
  from C9_getFramesSince [of ?b 3] so mem have a: "getFramesSince ?b 3 = filter (\<lambda>f. frameId f > 3) (frames ?b)"
    by blast
  then have a': "getFramesSince ?b 3 = [sampleFrame 5 False (Num 0)]"
    by (simp add: new_FrameBuffer_def sampleFrame_def)
  have "4 \<notin> frameId ` set (frames ?b)" by (simp add: new_FrameBuffer_def sampleFrame_def)
  with C9_getFramesSince [of ?b 4] have b: "getFramesSince ?b 4 = []" by simp
  have "3 \<in> frameId ` set (frames ?d)" by (simp add: new_FrameBuffer_def sampleFrame_def)
  with C9_getFramesSince [of ?d 3] have "getFramesSince ?d 3 = tl (dropWhile (\<lambda>f. frameId f \<noteq> 3) (frames ?d))"
    by simp
  then have c: "getFramesSince ?d 3 = [sampleFrame 3 False (Num 0)]"
    by (simp add: new_FrameBuffer_def sampleFrame_def)
  from so mem a' b c show ?thesis by blast
qed

section \<open>Pending actions and incoming frames\<close>

lemma pendingActions_settleAction [simp]: "pendingActions (settleAction s n out) = pendingActions s"
  by (simp add: settleAction_def)

lemma pendingActions_settleFrame [simp]: "pendingActions (settleFrame s n out) = pendingActions s"
  by (simp add: settleFrame_def)

lemma actionPromises_settleFrame [simp]: "actionPromises (settleFrame s n out) = actionPromises s"
  by (simp add: settleFrame_def)

lemma actionPromises_settleAction:
  "actionPromises (settleAction s n out) m =
     (if m = n \<and> actionPromises s n = None then Some out else actionPromises s m)"
  by (simp add: settleAction_def)

lemma pendingActions_handler [simp]: "pendingActions (handler cfg frame now s l) = pendingActions s"
  by (cases l) (simp_all add: off_def clearTimeout_def Let_def)

lemma actionPromises_handler [simp]: "actionPromises (handler cfg frame now s l) = actionPromises s"
  by (cases l) (simp_all add: off_def clearTimeout_def Let_def)

lemma pendingActions_emit [simp]: "pendingActions (emit_frame_added cfg s frame now) = pendingActions s"
proof -
  have "pendingActions (foldl (handler cfg frame now) s ls) = pendingActions s" for ls
    by (induction ls arbitrary: s) simp_all
  then show ?thesis by (simp add: emit_frame_added_def)
qed

lemma actionPromises_emit [simp]: "actionPromises (emit_frame_added cfg s frame now) = actionPromises s"
proof -
  have "actionPromises (foldl (handler cfg frame now) s ls) = actionPromises s" for ls
    by (induction ls arbitrary: s) simp_all
  then show ?thesis by (simp add: emit_frame_added_def)
qed

text \<open>One pending action resolved by a frame.\<close>

lemma pendingActions_resolvePending:
  "pendingActions (resolvePending frame now s p) = remove1 p (pendingActions s)"
  by (simp add: resolvePending_def Let_def remove1_idem)

lemma actionPromises_resolvePending_other:
  "pa_promise p \<noteq> n \<Longrightarrow> actionPromises (resolvePending frame now s p) n = actionPromises s n"
  by (simp add: resolvePending_def Let_def actionPromises_settleAction)

lemma actionPromises_resolvePending_settled:
  "actionPromises s n = Some v \<Longrightarrow> actionPromises (resolvePending frame now s p) n = Some v"
  by (auto simp: resolvePending_def Let_def actionPromises_settleAction)

lemma actionPromises_resolvePending_here:
  assumes "p \<in> set (pendingActions s)" and "actionPromises s (pa_promise p) = None"
  shows "\<exists>r. actionPromises (resolvePending frame now s p) (pa_promise p) = Some (Resolved r) \<and>
             afterFrame r = Some frame \<and> causedChange r = hasChange frame \<and>
             beforeFrame r = getFrame s (pa_frameId p) \<and>
             latencyMs r = now - pa_timestamp p \<and> far_action r = pa_action p"
  using assms by (simp add: resolvePending_def Let_def actionPromises_settleAction getFrame_def)

text \<open>A list of pending actions resolved by a frame.\<close>

lemma pendingActions_foldl_subset:
  "set (pendingActions (foldl (resolvePending frame now) s rs)) \<subseteq> set (pendingActions s)"
proof (induction rs arbitrary: s)
  case Nil
  show ?case by simp
next
  case (Cons r rs)
  have "set (pendingActions (resolvePending frame now s r)) \<subseteq> set (pendingActions s)"
    by (simp add: pendingActions_resolvePending set_remove1_subset)
  with Cons.IH [of "resolvePending frame now s r"] show ?case by auto
qed

lemma pendingActions_foldl_distinct:
  "distinct (pendingActions s) \<Longrightarrow> distinct (pendingActions (foldl (resolvePending frame now) s rs))"
  by (induction rs arbitrary: s) (simp_all add: pendingActions_resolvePending)

lemma pendingActions_foldl_keeps:
  "p \<in> set (pendingActions s) \<Longrightarrow> p \<notin> set rs \<Longrightarrow>
   p \<in> set (pendingActions (foldl (resolvePending frame now) s rs))"
proof (induction rs arbitrary: s)
  case Nil
  then show ?case by simp
next
  case (Cons r rs)
  from Cons.prems have "p \<in> set (pendingActions (resolvePending frame now s r))"
    by (auto simp: pendingActions_resolvePending)
  with Cons show ?case by simp
qed

lemma actionPromises_foldl_other:
  "\<forall>r \<in> set rs. pa_promise r \<noteq> n \<Longrightarrow>
   actionPromises (foldl (resolvePending frame now) s rs) n = actionPromises s n"
  by (induction rs arbitrary: s) (simp_all add: actionPromises_resolvePending_other)

lemma actionPromises_foldl_settled:
  "actionPromises s n = Some v \<Longrightarrow>
   actionPromises (foldl (resolvePending frame now) s rs) n = Some v"
  by (induction rs arbitrary: s) (simp_all add: actionPromises_resolvePending_settled)

lemma foldl_resolves_member:
  assumes d: "distinct (map pa_promise (pendingActions s))"
    and rs: "set rs \<subseteq> set (pendingActions s)"
    and p: "p \<in> set rs"
    and un: "actionPromises s (pa_promise p) = None"
  shows "p \<notin> set (pendingActions (foldl (resolvePending frame now) s rs)) \<and>
         (\<exists>r. actionPromises (foldl (resolvePending frame now) s rs) (pa_promise p) = Some (Resolved r) \<and>
              afterFrame r = Some frame \<and> causedChange r = hasChange frame \<and>
              beforeFrame r = getFrame s (pa_frameId p) \<and>
              latencyMs r = now - pa_timestamp p \<and> far_action r = pa_action p)"
proof -
  from p obtain rs1 rs2 where split: "rs = rs1 @ p # rs2" and first: "p \<notin> set rs1"
    by (auto dest: split_list_first)
  let ?s1 = "foldl (resolvePending frame now) s rs1"
  let ?s2 = "resolvePending frame now ?s1 p"
  from d have inj: "inj_on pa_promise (set (pendingActions s))" and dp: "distinct (pendingActions s)"
    by (simp_all add: distinct_map)
  from rs p have pin: "p \<in> set (pendingActions s)" by auto
  have "\<forall>r \<in> set rs1. pa_promise r \<noteq> pa_promise p"
  proof
    fix r assume r: "r \<in> set rs1"
    with rs split have "r \<in> set (pendingActions s)" by auto
    moreover from r first have "r \<noteq> p" by auto
    ultimately show "pa_promise r \<noteq> pa_promise p" using inj pin by (auto dest: inj_onD)
  qed
  then have un1: "actionPromises ?s1 (pa_promise p) = None"
    using un by (simp add: actionPromises_foldl_other)
  have in1: "p \<in> set (pendingActions ?s1)"
    using pin first by (rule pendingActions_foldl_keeps)
  have d1: "distinct (pendingActions ?s1)"
    using dp by (rule pendingActions_foldl_distinct)
  have fr: "frames ?s1 = frames s"
    by (induction rs1 arbitrary: s) simp_all
  from actionPromises_resolvePending_here [OF in1 un1, of frame now] obtain r where
    r: "actionPromises ?s2 (pa_promise p) = Some (Resolved r)"
    and rf: "afterFrame r = Some frame" "causedChange r = hasChange frame"
      "beforeFrame r = getFrame ?s1 (pa_frameId p)"
      "latencyMs r = now - pa_timestamp p" "far_action r = pa_action p"
    by blast
  have out2: "p \<notin> set (pendingActions ?s2)"
    using d1 by (simp add: pendingActions_resolvePending)
  have fin: "foldl (resolvePending frame now) s rs = foldl (resolvePending frame now) ?s2 rs2"
    by (simp add: split)
  have "p \<notin> set (pendingActions (foldl (resolvePending frame now) ?s2 rs2))"
    using out2 pendingActions_foldl_subset [of frame now ?s2 rs2] by auto
  moreover have "actionPromises (foldl (resolvePending frame now) ?s2 rs2) (pa_promise p) = Some (Resolved r)"
    using r by (rule actionPromises_foldl_settled)
  moreover have "beforeFrame r = getFrame s (pa_frameId p)"
    using rf(3) fr by (simp add: getFrame_def)
  ultimately show ?thesis using rf fin by auto
qed

lemma foldl_keeps_nonmember:
  assumes d: "distinct (map pa_promise (pendingActions s))"
    and rs: "set rs \<subseteq> set (pendingActions s)"
    and p: "p \<in> set (pendingActions s)" "p \<notin> set rs"
  shows "p \<in> set (pendingActions (foldl (resolvePending frame now) s rs)) \<and>
         actionPromises (foldl (resolvePending frame now) s rs) (pa_promise p)
           = actionPromises s (pa_promise p)"
proof -
  from d have inj: "inj_on pa_promise (set (pendingActions s))" by (simp add: distinct_map)
  have "\<forall>r \<in> set rs. pa_promise r \<noteq> pa_promise p"
  proof
    fix r assume r: "r \<in> set rs"
    with rs have "r \<in> set (pendingActions s)" by auto
    moreover from r p have "r \<noteq> p" by auto
    ultimately show "pa_promise r \<noteq> pa_promise p" using inj p(1) by (auto dest: inj_onD)
  qed
  then show ?thesis using p by (simp add: actionPromises_foldl_other pendingActions_foldl_keeps)
qed


lemma checkPendingActions_pending:
  assumes d: "distinct (map pa_promise (pendingActions s))"
    and p: "p \<in> set (pendingActions s)"
    and un: "actionPromises s (pa_promise p) = None"
  shows "if eligible cfg frame now p
         then p \<notin> set (pendingActions (checkPendingActions cfg s frame now)) \<and>
              (\<exists>r. actionPromises (checkPendingActions cfg s frame now) (pa_promise p) = Some (Resolved r) \<and>
                   afterFrame r = Some frame \<and> causedChange r = hasChange frame \<and>
                   beforeFrame r = getFrame s (pa_frameId p) \<and>
                   latencyMs r = now - pa_timestamp p \<and> far_action r = pa_action p)
         else p \<in> set (pendingActions (checkPendingActions cfg s frame now)) \<and>
              actionPromises (checkPendingActions cfg s frame now) (pa_promise p) = None"
proof (cases "eligible cfg frame now p")
  case True
  with p have "p \<in> set (filter (eligible cfg frame now) (pendingActions s))" by simp
  from foldl_resolves_member [OF d _ this un, of frame now] True show ?thesis
    by (simp add: checkPendingActions_def)
next
  case False
  then have "p \<notin> set (filter (eligible cfg frame now) (pendingActions s))" by simp
  from foldl_keeps_nonmember [OF d _ p this, of frame now] False un show ?thesis
    by (simp add: checkPendingActions_def)
qed

lemma wf_pending:
  assumes "wf s" and "p \<in> set (pendingActions s)"
  shows "distinct (map pa_promise (pendingActions s))"
    and "actionPromises s (pa_promise p) = None"
    and "pa_promise p < nextId s"
  using assms by (auto simp: wf_def list_all_iff)

section \<open>The invariant of the promise table\<close>

lemma wf_alt:
  "wf s \<longleftrightarrow>
     distinct (map pa_promise (pendingActions s)) \<and>
     distinct (map rc_promise (inflight s)) \<and>
     (\<forall>p \<in> set (pendingActions s). \<forall>rc \<in> set (inflight s). pa_promise p \<noteq> rc_promise rc) \<and>
     (\<forall>p \<in> set (pendingActions s). actionPromises s (pa_promise p) = None \<and> pa_promise p < nextId s) \<and>
     (\<forall>rc \<in> set (inflight s). actionPromises s (rc_promise rc) = None \<and> rc_promise rc < nextId s) \<and>
     (\<forall>n \<ge> nextId s. actionPromises s n = None)"
  by (auto simp: wf_def list_all_iff)

lemma wf_new: "wf new_FrameBuffer"
  by (simp add: wf_def new_FrameBuffer_def)

lemma distinct_map_remove1: "distinct (map f xs) \<Longrightarrow> distinct (map f (remove1 x xs))"
  using set_remove1_subset [of x xs] by (auto simp: distinct_map intro: inj_on_subset)

lemma remove1_map_fresh:
  "distinct (map f xs) \<Longrightarrow> x \<in> set xs \<Longrightarrow> y \<in> set (remove1 x xs) \<Longrightarrow> f y \<noteq> f x"
  by (auto simp: distinct_map set_remove1_eq dest: inj_onD)

text \<open>Removing a pending action and settling its promise keeps the invariant.\<close>

lemma wf_remove_settle:
  assumes "wf s" and "p \<in> set (pendingActions s)"
  shows "wf (settleAction (s\<lparr>pendingActions := remove1 p (pendingActions s)\<rparr>) (pa_promise p) out)"
proof -
  from assms have d: "distinct (map pa_promise (pendingActions s))" by (simp add: wf_alt)
  have fresh: "pa_promise q \<noteq> pa_promise p" if "q \<in> set (remove1 p (pendingActions s))" for q
    using remove1_map_fresh [OF d assms(2) that] .
  have sub: "q \<in> set (pendingActions s)" if "q \<in> set (remove1 p (pendingActions s))" for q
    using that set_remove1_subset [of p "pendingActions s"] by auto
  have other: "rc_promise rc \<noteq> pa_promise p" if "rc \<in> set (inflight s)" for rc
    using assms that unfolding wf_alt by metis
  show ?thesis
    unfolding wf_alt
  proof (intro conjI ballI allI impI)
    show "distinct (map pa_promise (pendingActions (settleAction (s\<lparr>pendingActions := remove1 p (pendingActions s)\<rparr>) (pa_promise p) out)))"
      using d by (simp add: distinct_map_remove1)
  qed (use assms fresh sub other in \<open>auto simp: wf_alt settleAction_def\<close>)
qed


lemma wf_cong:
  "pendingActions s' = pendingActions s \<Longrightarrow> inflight s' = inflight s \<Longrightarrow>
   actionPromises s' = actionPromises s \<Longrightarrow> nextId s' = nextId s \<Longrightarrow> wf s' = wf s"
  by (simp add: wf_def)

lemma inflight_settleAction [simp]: "inflight (settleAction s n out) = inflight s"
  by (simp add: settleAction_def)

lemma nextId_settleAction [simp]: "nextId (settleAction s n out) = nextId s"
  by (simp add: settleAction_def)

lemma inflight_handler [simp]: "inflight (handler cfg frame now s l) = inflight s"
  by (cases l) (simp_all add: off_def clearTimeout_def settleFrame_def Let_def)

lemma nextId_handler [simp]: "nextId (handler cfg frame now s l) = nextId s"
  by (cases l) (simp_all add: off_def clearTimeout_def settleFrame_def Let_def)

lemma inflight_emit [simp]: "inflight (emit_frame_added cfg s frame now) = inflight s"
proof -
  have "inflight (foldl (handler cfg frame now) s ls) = inflight s" for ls
    by (induction ls arbitrary: s) simp_all
  then show ?thesis by (simp add: emit_frame_added_def)
qed

lemma nextId_emit [simp]: "nextId (emit_frame_added cfg s frame now) = nextId s"
proof -
  have "nextId (foldl (handler cfg frame now) s ls) = nextId s" for ls
    by (induction ls arbitrary: s) simp_all
  then show ?thesis by (simp add: emit_frame_added_def)
qed

lemma wf_resolvePending: "wf s \<Longrightarrow> wf (resolvePending frame now s p)"
  by (simp add: resolvePending_def Let_def wf_remove_settle)

lemma wf_checkPendingActions: "wf s \<Longrightarrow> wf (checkPendingActions cfg s frame now)"
proof -
  have "wf s \<Longrightarrow> wf (foldl (resolvePending frame now) s rs)" for rs
    by (induction rs arbitrary: s) (simp_all add: wf_resolvePending)
  then show "wf s \<Longrightarrow> wf (checkPendingActions cfg s frame now)"
    by (simp add: checkPendingActions_def)
qed

lemma wf_addFrame:
  assumes "wf s" and "addFrame cfg s frame now = Some s'"
  shows "wf s'"
proof -
  from assms(2) obtain fs where
    s': "s' = checkPendingActions cfg (emit_frame_added cfg (s\<lparr>frames := fs\<rparr>) frame now) frame now"
    by (auto simp: addFrame_def split: option.splits)
  have "wf (emit_frame_added cfg (s\<lparr>frames := fs\<rparr>) frame now) = wf s"
    by (rule wf_cong) simp_all
  with assms(1) show ?thesis unfolding s' by (simp add: wf_checkPendingActions)
qed

lemma wf_callback: "wf s \<Longrightarrow> wf (callback s t now)"
proof (cases t)
  case (ActionTimer d pa res bf)
  then show "wf s \<Longrightarrow> wf (callback s t now)"
    by (simp add: Let_def wf_remove_settle)
next
  case (NextFrameTimer d n)
  have "wf (callback s t now) = wf s"
    by (rule wf_cong) (simp_all add: NextFrameTimer off_def settleFrame_def)
  then show "wf s \<Longrightarrow> wf (callback s t now)" by simp
next
  case (StableFrameTimer d n)
  have "wf (callback s t now) = wf s"
    by (rule wf_cong) (simp_all add: StableFrameTimer off_def settleFrame_def Let_def split: option.splits)
  then show "wf s \<Longrightarrow> wf (callback s t now)" by simp
qed

lemma wf_fireTimer: "wf s \<Longrightarrow> wf (fireTimer s t now)"
proof -
  have "wf (s\<lparr>timers := remove1 t (timers s)\<rparr>) = wf s"
    by (rule wf_cong) simp_all
  then show "wf s \<Longrightarrow> wf (fireTimer s t now)"
    by (simp add: fireTimer_def wf_callback)
qed

lemma wf_waitForNextFrame: "wf s \<Longrightarrow> wf (snd (waitForNextFrame s timeout now))"
  by (auto simp: wf_alt waitForNextFrame_def Let_def)

lemma wf_waitForStableFrame: "wf s \<Longrightarrow> wf (snd (waitForStableFrame s durationMs timeout now))"
  by (auto simp: wf_alt waitForStableFrame_def Let_def)

lemma wf_clear: "wf s \<Longrightarrow> wf (clear s)"
  by (auto simp: wf_alt clear_def)

lemma wf_registerAction_call: "wf s \<Longrightarrow> wf (snd (snd (registerAction_call s act now)))"
  by (fastforce simp: wf_alt registerAction_call_def Let_def settleAction_def split: option.splits)


lemma wf_drop_inflight:
  assumes "wf s" and "rc \<in> set (inflight s)"
  shows "wf (settleAction (s\<lparr>inflight := remove1 rc (inflight s)\<rparr>) (rc_promise rc) out)"
proof -
  from assms have d: "distinct (map rc_promise (inflight s))" by (simp add: wf_alt)
  have fresh: "rc_promise q \<noteq> rc_promise rc" if "q \<in> set (remove1 rc (inflight s))" for q
    using remove1_map_fresh [OF d assms(2) that] .
  have sub: "q \<in> set (inflight s)" if "q \<in> set (remove1 rc (inflight s))" for q
    using that set_remove1_subset [of rc "inflight s"] by auto
  have other: "pa_promise p \<noteq> rc_promise rc" if "p \<in> set (pendingActions s)" for p
    using assms that unfolding wf_alt by metis
  show ?thesis
    unfolding wf_alt
  proof (intro conjI ballI allI impI)
    show "distinct (map rc_promise (inflight (settleAction (s\<lparr>inflight := remove1 rc (inflight s)\<rparr>) (rc_promise rc) out)))"
      using d by (simp add: distinct_map_remove1)
  qed (use assms fresh sub other in \<open>auto simp: wf_alt settleAction_def\<close>)
qed

lemma wf_move_to_pending:
  assumes "wf s" and "rc \<in> set (inflight s)" and "pa_promise pa = rc_promise rc"
  shows "wf (s\<lparr>inflight := remove1 rc (inflight s),
               pendingActions := pendingActions s @ [pa], timers := ts\<rparr>)"
proof -
  from assms have d: "distinct (map rc_promise (inflight s))" by (simp add: wf_alt)
  have fresh: "rc_promise q \<noteq> pa_promise pa" if "q \<in> set (remove1 rc (inflight s))" for q
    using remove1_map_fresh [OF d assms(2) that] assms(3) by simp
  have sub: "q \<in> set (inflight s)" if "q \<in> set (remove1 rc (inflight s))" for q
    using that set_remove1_subset [of rc "inflight s"] by auto
  have other: "pa_promise p \<noteq> pa_promise pa" if "p \<in> set (pendingActions s)" for p
    using assms that unfolding wf_alt by metis
  have un: "actionPromises s (pa_promise pa) = None" and lt: "pa_promise pa < nextId s"
    using assms unfolding wf_alt by metis+
  have d': "distinct (map rc_promise (remove1 rc (inflight s)))"
    using d by (rule distinct_map_remove1)
  from assms(1) have w: "distinct (map pa_promise (pendingActions s))"
    "\<forall>p \<in> set (pendingActions s). \<forall>rc \<in> set (inflight s). pa_promise p \<noteq> rc_promise rc"
    "\<forall>p \<in> set (pendingActions s). actionPromises s (pa_promise p) = None \<and> pa_promise p < nextId s"
    "\<forall>rc \<in> set (inflight s). actionPromises s (rc_promise rc) = None \<and> rc_promise rc < nextId s"
    "\<forall>n \<ge> nextId s. actionPromises s n = None"
    by (simp_all add: wf_alt)
  show ?thesis
    unfolding wf_alt using fresh sub other un lt d' w by auto blast+
qed

lemma wf_registerAction_resume: "wf s \<Longrightarrow> wf (registerAction_resume cfg s rc outcome now)"
proof (cases "rc \<in> set (inflight s)")
  case False
  then show "wf s \<Longrightarrow> wf (registerAction_resume cfg s rc outcome now)"
    by (simp add: registerAction_resume_def)
next
  case True
  assume "wf s"
  note drop = wf_drop_inflight [OF \<open>wf s\<close> True]
  note move = wf_move_to_pending [OF \<open>wf s\<close> True]
  show "wf (registerAction_resume cfg s rc outcome now)"
  proof (cases outcome)
    case (ExecThrew e)
    with True drop show ?thesis by (simp add: registerAction_resume_def)
  next
    case (ExecReturned res)
    with True drop move show ?thesis by (simp add: registerAction_resume_def Let_def)
  qed
qed

lemma wf_step: "wf s \<Longrightarrow> step cfg s e = Some s' \<Longrightarrow> wf s'"
  by (cases e)
     (auto simp: wf_addFrame wf_fireTimer wf_waitForNextFrame wf_waitForStableFrame
        wf_registerAction_call wf_registerAction_resume wf_clear)

lemma wf_run: "wf s \<Longrightarrow> run cfg s es = Some s' \<Longrightarrow> wf s'"
proof (induction es arbitrary: s)
  case Nil
  then show ?case by simp
next
  case (Cons e es)
  then show ?case by (auto split: option.splits dest: wf_step)
qed

lemma run_total: "0 \<le> maxSize cfg \<Longrightarrow> \<exists>s'. run cfg s es = Some s'"
proof (induction es arbitrary: s)
  case Nil
  show ?case by simp
next
  case (Cons e es)
  have "\<exists>s1. addFrame cfg s f n = Some s1" for f n
    using addFrame_nonneg [OF Cons.prems, of s f n] by blast
  then have "\<exists>s1. step cfg s e = Some s1"
    by (cases e) auto
  with Cons show ?case by auto
qed

lemma waitingBuffer_reached:
  "run DEFAULT_CONFIG new_FrameBuffer
     [EvAddFrame (sampleFrame 1 True (Num 100)) 0, EvRegister clickAction 0,
      EvResume clickCall (ExecReturned okResult) 5] = Some waitingBuffer"
  by (simp add: addFrame_def trim_small DEFAULT_CONFIG_def new_FrameBuffer_def
      emit_frame_added_def checkPendingActions_def registerAction_call_def getLatestFrame_def
      registerAction_resume_def clickCall_def clickAction_def okResult_def waitingBuffer_def
      pendingClick_def sampleFrame_def Let_def)

lemma wf_waitingBuffer: "wf waitingBuffer"
  using wf_run [OF wf_new waitingBuffer_reached] .

text \<open>
  Claim C4. Let a frame be passed to \<open>addFrame\<close> at time \<open>now\<close>, in a state runs reach,
  with a configuration whose \<open>maxSize\<close> is not negative, and let \<open>p\<close> be a correlation
  that is pending then. The call returns, and \<open>p\<close> is resolved by the frame exactly when
  the frame's id is greater than the id of \<open>p\<close>'s reference frame and the frame's
  \<open>deltaPercent\<close> is at most \<open>stabilityThreshold\<close> or at least \<open>stabilityWaitMs\<close> have
  passed since the action was issued: then \<open>p\<close> leaves the pending table and its promise
  is resolved with \<open>afterFrame\<close> that frame and \<open>causedChange\<close> the frame's \<open>hasChange\<close>;
  otherwise \<open>p\<close> stays pending and its promise stays unsettled.
\<close>

theorem C4_frame_resolves_eligible:
  assumes "wf s" and "0 \<le> maxSize cfg" and "p \<in> set (pendingActions s)"
  shows "\<exists>s'. addFrame cfg s frame now = Some s' \<and>
           (if frameId frame > pa_frameId p \<and>
               (num_le (deltaPercent frame) (stabilityThreshold cfg) \<or>
                now - pa_timestamp p \<ge> stabilityWaitMs cfg)
            then p \<notin> set (pendingActions s') \<and>
                 (\<exists>r. actionPromises s' (pa_promise p) = Some (Resolved r) \<and>
                      afterFrame r = Some frame \<and> causedChange r = hasChange frame)
            else p \<in> set (pendingActions s') \<and> actionPromises s' (pa_promise p) = None)"
proof -
  let ?fs = "drop (length (frames s @ [frame]) - nat (maxSize cfg)) (frames s @ [frame])"
  let ?s1 = "emit_frame_added cfg (s\<lparr>frames := ?fs\<rparr>) frame now"
  have run: "addFrame cfg s frame now = Some (checkPendingActions cfg ?s1 frame now)"
    using assms(2) by (simp add: addFrame_def trim_nonneg)
  have d: "distinct (map pa_promise (pendingActions ?s1))"
    using wf_pending(1) [OF assms(1,3)] by simp
  have p: "p \<in> set (pendingActions ?s1)" using assms(3) by simp
  have un: "actionPromises ?s1 (pa_promise p) = None"
    using wf_pending(2) [OF assms(1,3)] by simp
  from checkPendingActions_pending [OF d p un, of cfg frame now] run show ?thesis
    by (auto simp: eligible_def Let_def split: if_splits)
qed

text \<open>
  On the buffer that waits for the outcome of a click based on frame 1, issued at time 0:
  at time 50 a frame 2 with no change resolves the click, one with 40 percent of change
  leaves it pending.
\<close>

theorem C4_frame_resolves_eligible_witness:
  "wf waitingBuffer \<and> 0 \<le> maxSize DEFAULT_CONFIG \<and>
   pendingClick \<in> set (pendingActions waitingBuffer) \<and>
   (\<exists>s'. addFrame DEFAULT_CONFIG waitingBuffer (sampleFrame 2 True (Num 0)) 50 = Some s' \<and>
         pendingClick \<notin> set (pendingActions s') \<and>
         (\<exists>r. actionPromises s' (pa_promise pendingClick) = Some (Resolved r) \<and>
              afterFrame r = Some (sampleFrame 2 True (Num 0)) \<and>
              causedChange r = hasChange (sampleFrame 2 True (Num 0)))) \<and>
   (\<exists>s'. addFrame DEFAULT_CONFIG waitingBuffer (sampleFrame 2 True (Num 40)) 50 = Some s' \<and>
         pendingClick \<in> set (pendingActions s') \<and>
         actionPromises s' (pa_promise pendingClick) = None)"
proof -
  have h: "0 \<le> maxSize DEFAULT_CONFIG" by (simp add: DEFAULT_CONFIG_def)
  have p: "pendingClick \<in> set (pendingActions waitingBuffer)"
    by (simp add: waitingBuffer_def new_FrameBuffer_def)
  have a: "\<exists>s'. addFrame DEFAULT_CONFIG waitingBuffer (sampleFrame 2 True (Num 0)) 50 = Some s' \<and>
         pendingClick \<notin> set (pendingActions s') \<and>
         (\<exists>r. actionPromises s' (pa_promise pendingClick) = Some (Resolved r) \<and>
              afterFrame r = Some (sampleFrame 2 True (Num 0)) \<and>
              causedChange r = hasChange (sampleFrame 2 True (Num 0)))"
    using C4_frame_resolves_eligible [OF wf_waitingBuffer h p, of "sampleFrame 2 True (Num 0)" 50]
    by (simp add: sampleFrame_def pendingClick_def DEFAULT_CONFIG_def)
  have b: "\<exists>s'. addFrame DEFAULT_CONFIG waitingBuffer (sampleFrame 2 True (Num 40)) 50 = Some s' \<and>
         pendingClick \<in> set (pendingActions s') \<and>
         actionPromises s' (pa_promise pendingClick) = None"
    using C4_frame_resolves_eligible [OF wf_waitingBuffer h p, of "sampleFrame 2 True (Num 40)" 50]
    by (simp add: sampleFrame_def pendingClick_def DEFAULT_CONFIG_def)
  from wf_waitingBuffer h p a b show ?thesis by blast
qed

section \<open>registerAction: when the call settles\<close>

lemma settleAction_settles: "actionPromises (settleAction s n out) n \<noteq> None"
  by (simp add: settleAction_def)

lemma settleAction_settles_ex: "\<exists>y. actionPromises (settleAction s n out) n = Some y"
  by (simp add: settleAction_def)

lemma settleAction_mono:
  "actionPromises s n = Some v \<Longrightarrow> actionPromises (settleAction s m out) n = Some v"
  by (auto simp: settleAction_def)

lemma timers_settleAction [simp]: "timers (settleAction s n out) = timers s"
  by (simp add: settleAction_def)

lemma action_timer_handler:
  "ActionTimer d pa res bf \<in> set (timers s) \<Longrightarrow>
   ActionTimer d pa res bf \<in> set (timers (handler cfg frame now s l))"
  by (cases l) (simp_all add: off_def clearTimeout_def settleFrame_def Let_def)

lemma action_timer_emit:
  "ActionTimer d pa res bf \<in> set (timers s) \<Longrightarrow>
   ActionTimer d pa res bf \<in> set (timers (emit_frame_added cfg s frame now))"
proof -
  have "ActionTimer d pa res bf \<in> set (timers s) \<Longrightarrow>
        ActionTimer d pa res bf \<in> set (timers (foldl (handler cfg frame now) s ls))" for ls
    by (induction ls arbitrary: s) (simp_all add: action_timer_handler)
  then show "ActionTimer d pa res bf \<in> set (timers s) \<Longrightarrow>
    ActionTimer d pa res bf \<in> set (timers (emit_frame_added cfg s frame now))"
    by (simp add: emit_frame_added_def)
qed

lemma timers_resolvePending [simp]: "timers (resolvePending frame now s p) = timers s"
  by (simp add: resolvePending_def Let_def)

lemma timers_checkPendingActions [simp]: "timers (checkPendingActions cfg s frame now) = timers s"
proof -
  have "timers (foldl (resolvePending frame now) s ps) = timers s" for ps
    by (induction ps arbitrary: s) simp_all
  then show ?thesis by (simp add: checkPendingActions_def)
qed

text \<open>
  A pending action whose timeout is set stays so, or its promise is settled: through
  every step but \<open>clear\<close>.
\<close>

lemma awaited_resolvePending:
  assumes "actionPromises s (pa_promise pa) \<noteq> None \<or> pa \<in> set (pendingActions s)"
  shows "actionPromises (resolvePending frame now s p) (pa_promise pa) \<noteq> None \<or>
         pa \<in> set (pendingActions (resolvePending frame now s p))"
proof (cases "p = pa \<and> pa \<in> set (pendingActions s)")
  case True
  then show ?thesis by (simp add: resolvePending_def Let_def settleAction_settles)
next
  case False
  from assms show ?thesis
  proof
    assume "actionPromises s (pa_promise pa) \<noteq> None"
    then show ?thesis by (auto simp: resolvePending_def Let_def settleAction_mono)
  next
    assume "pa \<in> set (pendingActions s)"
    with False have "pa \<in> set (pendingActions (resolvePending frame now s p))"
      by (auto simp: pendingActions_resolvePending)
    then show ?thesis by simp
  qed
qed

lemma awaited_checkPendingActions:
  assumes "actionPromises s (pa_promise pa) \<noteq> None \<or> pa \<in> set (pendingActions s)"
  shows "actionPromises (checkPendingActions cfg s frame now) (pa_promise pa) \<noteq> None \<or>
         pa \<in> set (pendingActions (checkPendingActions cfg s frame now))"
proof -
  have "actionPromises s (pa_promise pa) \<noteq> None \<or> pa \<in> set (pendingActions s) \<Longrightarrow>
        actionPromises (foldl (resolvePending frame now) s ps) (pa_promise pa) \<noteq> None \<or>
        pa \<in> set (pendingActions (foldl (resolvePending frame now) s ps))" for ps
  proof (induction ps arbitrary: s)
    case Nil
    then show ?case by simp
  next
    case (Cons p ps)
    from Cons.IH [OF awaited_resolvePending [OF Cons.prems, of frame now p]] show ?case by simp
  qed
  with assms show ?thesis by (simp add: checkPendingActions_def)
qed

lemma awaited_addFrame:
  assumes "addFrame cfg s frame now = Some s'"
    and "actionPromises s (pa_promise pa) \<noteq> None \<or>
         pa \<in> set (pendingActions s) \<and> ActionTimer d pa res bf \<in> set (timers s)"
  shows "actionPromises s' (pa_promise pa) \<noteq> None \<or>
         pa \<in> set (pendingActions s') \<and> ActionTimer d pa res bf \<in> set (timers s')"
proof -
  from assms(1) obtain fs where
    s': "s' = checkPendingActions cfg (emit_frame_added cfg (s\<lparr>frames := fs\<rparr>) frame now) frame now"
    by (auto simp: addFrame_def split: option.splits)
  let ?s1 = "emit_frame_added cfg (s\<lparr>frames := fs\<rparr>) frame now"
  from assms(2) have a: "actionPromises ?s1 (pa_promise pa) \<noteq> None \<or> pa \<in> set (pendingActions ?s1)"
    by auto
  show ?thesis
  proof (cases "actionPromises s (pa_promise pa) \<noteq> None")
    case True
    then have "actionPromises ?s1 (pa_promise pa) \<noteq> None" by simp
    with awaited_checkPendingActions [of ?s1 pa cfg frame now] s' show ?thesis
      by (metis actionPromises_foldl_settled checkPendingActions_def not_None_eq)
  next
    case False
    with assms(2) have t: "ActionTimer d pa res bf \<in> set (timers (s\<lparr>frames := fs\<rparr>))" by simp
    have "ActionTimer d pa res bf \<in> set (timers s')"
      unfolding s' using action_timer_emit [OF t] by simp
    with awaited_checkPendingActions [OF a, of cfg frame now] s' show ?thesis by auto
  qed
qed

lemma awaited_fireTimer:
  assumes "actionPromises s (pa_promise pa) \<noteq> None \<or>
         pa \<in> set (pendingActions s) \<and> ActionTimer d pa res bf \<in> set (timers s)"
  shows "actionPromises (fireTimer s t now) (pa_promise pa) \<noteq> None \<or>
         pa \<in> set (pendingActions (fireTimer s t now)) \<and>
         ActionTimer d pa res bf \<in> set (timers (fireTimer s t now))"
proof (cases "t \<in> set (timers s)")
  case False
  with assms show ?thesis by (simp add: fireTimer_def)
next
  case True
  show ?thesis
  proof (cases t)
    case (ActionTimer d' pa' res' bf')
    show ?thesis
    proof (cases "pa' = pa")
      case same: True
      show ?thesis
      proof (cases "pa \<in> set (pendingActions s)")
        case True
        with same ActionTimer \<open>t \<in> set (timers s)\<close> show ?thesis
          by (simp add: fireTimer_def Let_def settleAction_settles)
      next
        case False
        with assms have "actionPromises s (pa_promise pa) \<noteq> None" by auto
        with same ActionTimer False \<open>t \<in> set (timers s)\<close> show ?thesis
          by (simp add: fireTimer_def)
      qed
    next
      case False
      then have ne: "t \<noteq> ActionTimer d pa res bf" using ActionTimer by simp
      from assms show ?thesis
      proof
        assume "actionPromises s (pa_promise pa) \<noteq> None"
        then show ?thesis using ActionTimer True
          by (auto simp: fireTimer_def Let_def settleAction_mono)
      next
        assume a: "pa \<in> set (pendingActions s) \<and> ActionTimer d pa res bf \<in> set (timers s)"
        with False ne ActionTimer True show ?thesis
          by (auto simp: fireTimer_def Let_def)
      qed
    qed
  next
    case (NextFrameTimer d' n)
    with True assms show ?thesis
      by (auto simp: fireTimer_def off_def settleFrame_def)
  next
    case (StableFrameTimer d' n)
    with True assms show ?thesis
      by (auto simp: fireTimer_def off_def settleFrame_def Let_def split: option.splits)
  qed
qed


lemma awaited_registerAction_call:
  assumes "actionPromises s (pa_promise pa) \<noteq> None \<or>
         pa \<in> set (pendingActions s) \<and> ActionTimer d pa res bf \<in> set (timers s)"
  shows "actionPromises (snd (snd (registerAction_call s act now))) (pa_promise pa) \<noteq> None \<or>
         pa \<in> set (pendingActions (snd (snd (registerAction_call s act now)))) \<and>
         ActionTimer d pa res bf \<in> set (timers (snd (snd (registerAction_call s act now))))"
  using assms
  by (auto simp: registerAction_call_def Let_def settleAction_mono split: option.splits)

lemma awaited_registerAction_resume:
  assumes "actionPromises s (pa_promise pa) \<noteq> None \<or>
         pa \<in> set (pendingActions s) \<and> ActionTimer d pa res bf \<in> set (timers s)"
  shows "actionPromises (registerAction_resume cfg s rc outcome now) (pa_promise pa) \<noteq> None \<or>
         pa \<in> set (pendingActions (registerAction_resume cfg s rc outcome now)) \<and>
         ActionTimer d pa res bf \<in> set (timers (registerAction_resume cfg s rc outcome now))"
  using assms
  by (cases outcome)
     (auto simp: registerAction_resume_def Let_def settleAction_mono)

lemma awaited_step:
  assumes "e \<noteq> EvClear" and "step cfg s e = Some s'"
    and "actionPromises s (pa_promise pa) \<noteq> None \<or>
         pa \<in> set (pendingActions s) \<and> ActionTimer d pa res bf \<in> set (timers s)"
  shows "actionPromises s' (pa_promise pa) \<noteq> None \<or>
         pa \<in> set (pendingActions s') \<and> ActionTimer d pa res bf \<in> set (timers s')"
proof (cases e)
  case (EvAddFrame frame now)
  with assms(2) have "addFrame cfg s frame now = Some s'" by simp
  from awaited_addFrame [OF this assms(3)] show ?thesis .
next
  case (EvFire t now)
  with assms(2) have "s' = fireTimer s t now" by simp
  with awaited_fireTimer [OF assms(3), of t now] show ?thesis by simp
next
  case (EvWaitNext timeout now)
  with assms(2,3) show ?thesis by (auto simp: waitForNextFrame_def Let_def)
next
  case (EvWaitStable durationMs timeout now)
  with assms(2,3) show ?thesis by (auto simp: waitForStableFrame_def Let_def)
next
  case (EvRegister act now)
  with assms(2) have "s' = snd (snd (registerAction_call s act now))" by simp
  with awaited_registerAction_call [OF assms(3), of act now] show ?thesis by simp
next
  case (EvResume rc outcome now)
  with assms(2) have "s' = registerAction_resume cfg s rc outcome now" by simp
  with awaited_registerAction_resume [OF assms(3), of cfg rc outcome now] show ?thesis by simp
next
  case EvClear
  with assms(1) show ?thesis by simp
qed

lemma awaited_run:
  assumes "EvClear \<notin> set es" and "run cfg s es = Some s'"
    and "actionPromises s (pa_promise pa) \<noteq> None \<or>
         pa \<in> set (pendingActions s) \<and> ActionTimer d pa res bf \<in> set (timers s)"
  shows "actionPromises s' (pa_promise pa) \<noteq> None \<or>
         pa \<in> set (pendingActions s') \<and> ActionTimer d pa res bf \<in> set (timers s')"
  using assms
proof (induction es arbitrary: s)
  case Nil
  then show ?case by simp
next
  case (Cons e es)
  from Cons.prems(2) obtain s1 where s1: "step cfg s e = Some s1" and r: "run cfg s1 es = Some s'"
    by (auto split: option.splits)
  from Cons.prems(1) have ne: "e \<noteq> EvClear" and rest: "EvClear \<notin> set es" by auto
  from Cons.IH [OF rest r awaited_step [OF ne s1 Cons.prems(3)]] show ?case .
qed

lemma fire_settles:
  assumes "actionPromises s (pa_promise pa) \<noteq> None \<or>
         pa \<in> set (pendingActions s) \<and> ActionTimer d pa res bf \<in> set (timers s)"
  shows "actionPromises (fireTimer s (ActionTimer d pa res bf) now) (pa_promise pa) \<noteq> None"
  using assms
  by (auto simp: fireTimer_def Let_def settleAction_settles_ex settleAction_mono)

lemma calledBuffer_reached:
  "run DEFAULT_CONFIG new_FrameBuffer
     [EvAddFrame (sampleFrame 1 True (Num 100)) 0, EvRegister clickAction 0] = Some calledBuffer"
  by (simp add: addFrame_def trim_small DEFAULT_CONFIG_def new_FrameBuffer_def
      emit_frame_added_def checkPendingActions_def registerAction_call_def getLatestFrame_def
      clickCall_def clickAction_def calledBuffer_def sampleFrame_def Let_def)

lemma wf_calledBuffer: "wf calledBuffer"
  using wf_run [OF wf_new calledBuffer_reached] .

text \<open>
  Claim C2, as the code has it. Let a call of \<open>registerAction\<close> be suspended at its
  executor, and let the executor complete at time \<open>t\<close>, with a result or by throwing.
  Then the call is settled at once, or a timer due at \<open>t + maxWaitMs\<close> is set, and after
  any further events among which the buffer is not cleared (frames, timers, waits, other
  actions), the call is settled at the latest when that timer has fired. The bound counts
  from the completion of the executor: while the executor runs no timer is set.
\<close>

theorem C2_registerAction_settles_after_executor:
  assumes "rc \<in> set (inflight s)" and "0 \<le> maxSize cfg" and "EvClear \<notin> set es"
  shows "actionPromises (registerAction_resume cfg s rc outcome t) (rc_promise rc) \<noteq> None \<or>
         (\<exists>T. T \<in> set (timers (registerAction_resume cfg s rc outcome t)) \<and>
              due T = t + maxWaitMs cfg \<and>
              (\<exists>s'. run cfg (registerAction_resume cfg s rc outcome t) es = Some s' \<and>
                    actionPromises (fireTimer s' T now) (rc_promise rc) \<noteq> None))"
proof -
  let ?s1 = "registerAction_resume cfg s rc outcome t"
  from run_total [OF assms(2), of ?s1 es] obtain s' where r: "run cfg ?s1 es = Some s'" by blast
  show ?thesis
  proof (cases "actionPromises ?s1 (rc_promise rc) \<noteq> None")
    case True
    then show ?thesis by simp
  next
    case False
    then obtain res where out: "outcome = ExecReturned res" and ok: "success res"
      and vis: "\<not> (action (rc_action rc) = Act_wait \<or> action (rc_action rc) = Act_screenshot)"
      using assms(1)
      by (cases outcome)
         (auto simp: registerAction_resume_def Let_def settleAction_settles split: if_splits)
    let ?pa = "\<lparr>pa_action = rc_action rc, pa_frameId = frameId (rc_beforeFrame rc),
                 pa_timestamp = rc_startTime rc, pa_promise = rc_promise rc\<rparr>"
    let ?T = "ActionTimer (t + maxWaitMs cfg) ?pa res (rc_beforeFrame rc)"
    have p: "?pa \<in> set (pendingActions ?s1)" and T: "?T \<in> set (timers ?s1)"
      using assms(1) out ok vis by (simp_all add: registerAction_resume_def Let_def)
    then have "actionPromises ?s1 (pa_promise ?pa) \<noteq> None \<or>
               ?pa \<in> set (pendingActions ?s1) \<and> ?T \<in> set (timers ?s1)" by simp
    from fire_settles [OF awaited_run [OF assms(3) r this], of now]
    have "actionPromises (fireTimer s' ?T now) (rc_promise rc) \<noteq> None" by simp
    with T r show ?thesis by (intro disjI2 exI [of _ ?T]) auto
  qed
qed

text \<open>
  Claim C2 as written fails for an executor that never completes: the click is
  registered at time 0, frames arrive at 1000 and 5000 (\<open>maxWaitMs\<close> is 2000), and the
  promise of the call is still pending, with no timer set that could settle it.
\<close>

theorem C2_registerAction_settles_after_executor_counterexample:
  "map_option (\<lambda>s. (actionPromises s 0, timers s))
     (run DEFAULT_CONFIG new_FrameBuffer
        [EvAddFrame (sampleFrame 1 True (Num 100)) 0, EvRegister clickAction 0,
         EvAddFrame (sampleFrame 2 True (Num 0)) 1000,
         EvAddFrame (sampleFrame 3 False (Num 0)) 5000])
   = Some (None, [])"
  by (simp add: addFrame_def trim_small DEFAULT_CONFIG_def new_FrameBuffer_def
      emit_frame_added_def checkPendingActions_def registerAction_call_def getLatestFrame_def
      sampleFrame_def Let_def)

text \<open>
  The click whose executor succeeds at time 5: it is not settled at once, a frame with 40
  percent of change at time 50 does not settle it, the timer due at 2005 does.
\<close>

theorem C2_registerAction_settles_after_executor_witness:
  "clickCall \<in> set (inflight calledBuffer) \<and> 0 \<le> maxSize DEFAULT_CONFIG \<and>
   EvClear \<notin> set [EvAddFrame (sampleFrame 2 True (Num 40)) 50] \<and>
   actionPromises (registerAction_resume DEFAULT_CONFIG calledBuffer clickCall
       (ExecReturned okResult) 5) (rc_promise clickCall) = None \<and>
   (\<exists>T. T \<in> set (timers (registerAction_resume DEFAULT_CONFIG calledBuffer clickCall
                         (ExecReturned okResult) 5)) \<and>
        due T = 5 + maxWaitMs DEFAULT_CONFIG \<and>
        (\<exists>s'. run DEFAULT_CONFIG
                 (registerAction_resume DEFAULT_CONFIG calledBuffer clickCall
                    (ExecReturned okResult) 5)
                 [EvAddFrame (sampleFrame 2 True (Num 40)) 50] = Some s' \<and>
              actionPromises (fireTimer s' T 2005) (rc_promise clickCall) \<noteq> None))"
proof -
  have i: "clickCall \<in> set (inflight calledBuffer)"
    by (simp add: calledBuffer_def new_FrameBuffer_def)
  have h: "0 \<le> maxSize DEFAULT_CONFIG" by (simp add: DEFAULT_CONFIG_def)
  have c: "EvClear \<notin> set [EvAddFrame (sampleFrame 2 True (Num 40)) 50]" by simp
  have u: "actionPromises (registerAction_resume DEFAULT_CONFIG calledBuffer clickCall
       (ExecReturned okResult) 5) (rc_promise clickCall) = None"
    by (simp add: registerAction_resume_def calledBuffer_def new_FrameBuffer_def okResult_def
        clickCall_def clickAction_def Let_def)
  from C2_registerAction_settles_after_executor [OF i h c, of "ExecReturned okResult" 5 2005] u i h c show ?thesis by simp
qed

section \<open>clear() and the pending actions\<close>

lemma settleAction_other: "m \<noteq> n \<Longrightarrow> actionPromises (settleAction s m out) n = actionPromises s n"
  by (simp add: settleAction_def)

lemma inflight_resolvePending [simp]: "inflight (resolvePending frame now s p) = inflight s"
  by (simp add: resolvePending_def Let_def)

lemma nextId_resolvePending [simp]: "nextId (resolvePending frame now s p) = nextId s"
  by (simp add: resolvePending_def Let_def)

lemma inflight_checkPendingActions [simp]: "inflight (checkPendingActions cfg s frame now) = inflight s"
proof -
  have "inflight (foldl (resolvePending frame now) s ps) = inflight s" for ps
    by (induction ps arbitrary: s) simp_all
  then show ?thesis by (simp add: checkPendingActions_def)
qed

lemma nextId_checkPendingActions [simp]: "nextId (checkPendingActions cfg s frame now) = nextId s"
proof -
  have "nextId (foldl (resolvePending frame now) s ps) = nextId s" for ps
    by (induction ps arbitrary: s) simp_all
  then show ?thesis by (simp add: checkPendingActions_def)
qed

lemma abandoned_addFrame:
  assumes "abandoned n s" and "addFrame cfg s frame now = Some s'"
  shows "abandoned n s'"
proof -
  from assms(2) obtain fs where
    s': "s' = checkPendingActions cfg (emit_frame_added cfg (s\<lparr>frames := fs\<rparr>) frame now) frame now"
    by (auto simp: addFrame_def split: option.splits)
  let ?s1 = "emit_frame_added cfg (s\<lparr>frames := fs\<rparr>) frame now"
  let ?rs = "filter (eligible cfg frame now) (pendingActions ?s1)"
  from assms(1) have "\<forall>r \<in> set ?rs. pa_promise r \<noteq> n" by (auto simp: abandoned_def)
  then have "actionPromises s' n = actionPromises ?s1 n"
    unfolding s' checkPendingActions_def Let_def by (rule actionPromises_foldl_other)
  moreover have "set (pendingActions s') \<subseteq> set (pendingActions ?s1)"
    unfolding s' checkPendingActions_def Let_def by (rule pendingActions_foldl_subset)
  ultimately show ?thesis using assms(1) unfolding s' by (auto simp: abandoned_def)
qed

lemma abandoned_fireTimer: "abandoned n s \<Longrightarrow> abandoned n (fireTimer s t now)"
proof (cases t)
  case (ActionTimer d pa res bf)
  assume a: "abandoned n s"
  show ?thesis
  proof (cases "t \<in> set (timers s) \<and> pa \<in> set (pendingActions s)")
    case True
    with a have "pa_promise pa \<noteq> n" by (auto simp: abandoned_def)
    moreover have "set (remove1 pa (pendingActions s)) \<subseteq> set (pendingActions s)"
      by (rule set_remove1_subset)
    ultimately show ?thesis using a True ActionTimer
      by (auto simp: abandoned_def fireTimer_def Let_def settleAction_other)
  next
    case False
    with a ActionTimer show ?thesis by (auto simp: abandoned_def fireTimer_def)
  qed
next
  case (NextFrameTimer d m)
  then show "abandoned n s \<Longrightarrow> abandoned n (fireTimer s t now)"
    by (auto simp: abandoned_def fireTimer_def off_def settleFrame_def)
next
  case (StableFrameTimer d m)
  then show "abandoned n s \<Longrightarrow> abandoned n (fireTimer s t now)"
    by (auto simp: abandoned_def fireTimer_def off_def settleFrame_def Let_def split: option.splits)
qed

lemma abandoned_registerAction_call:
  "abandoned n s \<Longrightarrow> abandoned n (snd (snd (registerAction_call s act now)))"
  by (auto simp: abandoned_def registerAction_call_def Let_def settleAction_other split: option.splits)

lemma abandoned_registerAction_resume:
  assumes "abandoned n s"
  shows "abandoned n (registerAction_resume cfg s rc outcome now)"
proof (cases "rc \<in> set (inflight s)")
  case False
  with assms show ?thesis by (simp add: registerAction_resume_def)
next
  case True
  with assms have ne: "rc_promise rc \<noteq> n" by (auto simp: abandoned_def)
  have sub: "set (remove1 rc (inflight s)) \<subseteq> set (inflight s)" by (rule set_remove1_subset)
  from assms ne sub True show ?thesis
    by (cases outcome)
       (auto simp: abandoned_def registerAction_resume_def Let_def settleAction_other)
qed

lemma abandoned_step: "abandoned n s \<Longrightarrow> step cfg s e = Some s' \<Longrightarrow> abandoned n s'"
proof (cases e)
  case (EvAddFrame frame now)
  then show "abandoned n s \<Longrightarrow> step cfg s e = Some s' \<Longrightarrow> abandoned n s'"
    by (simp add: abandoned_addFrame)
next
  case (EvFire t now)
  then show "abandoned n s \<Longrightarrow> step cfg s e = Some s' \<Longrightarrow> abandoned n s'"
    by (auto simp: abandoned_fireTimer)
next
  case (EvWaitNext timeout now)
  then show "abandoned n s \<Longrightarrow> step cfg s e = Some s' \<Longrightarrow> abandoned n s'"
    by (auto simp: abandoned_def waitForNextFrame_def Let_def)
next
  case (EvWaitStable durationMs timeout now)
  then show "abandoned n s \<Longrightarrow> step cfg s e = Some s' \<Longrightarrow> abandoned n s'"
    by (auto simp: abandoned_def waitForStableFrame_def Let_def)
next
  case (EvRegister act now)
  then show "abandoned n s \<Longrightarrow> step cfg s e = Some s' \<Longrightarrow> abandoned n s'"
    by (auto simp: abandoned_registerAction_call)
next
  case (EvResume rc outcome now)
  then show "abandoned n s \<Longrightarrow> step cfg s e = Some s' \<Longrightarrow> abandoned n s'"
    by (auto simp: abandoned_registerAction_resume)
next
  case EvClear
  then show "abandoned n s \<Longrightarrow> step cfg s e = Some s' \<Longrightarrow> abandoned n s'"
    by (auto simp: abandoned_def clear_def)
qed

lemma abandoned_run: "abandoned n s \<Longrightarrow> run cfg s es = Some s' \<Longrightarrow> abandoned n s'"
proof (induction es arbitrary: s)
  case Nil
  then show ?case by simp
next
  case (Cons e es)
  then show ?case by (auto split: option.splits dest: abandoned_step)
qed

lemma abandoned_clear:
  assumes "wf s" and "p \<in> set (pendingActions s)"
  shows "abandoned (pa_promise p) (clear s)"
proof -
  have "rc_promise rc \<noteq> pa_promise p" if "rc \<in> set (inflight s)" for rc
    using assms that unfolding wf_alt by metis
  then show ?thesis
    using wf_pending(2,3) [OF assms] by (auto simp: abandoned_def clear_def) blast
qed

lemma inflight_addFrame:
  "addFrame cfg s frame now = Some s' \<Longrightarrow> inflight s' = inflight s"
  by (auto simp: addFrame_def split: option.splits)

lemma inflight_fireTimer [simp]: "inflight (fireTimer s t now) = inflight s"
  by (cases t) (simp_all add: fireTimer_def off_def settleFrame_def Let_def split: option.splits)

lemma suspended_step:
  assumes "rc \<in> set (inflight s)" and "step cfg s e = Some s'"
    and "\<forall>outcome now. e \<noteq> EvResume rc outcome now"
  shows "rc \<in> set (inflight s')"
proof (cases e)
  case (EvAddFrame frame now)
  with assms show ?thesis by (simp add: inflight_addFrame)
next
  case (EvResume rc' outcome now)
  with assms(3) have "rc' \<noteq> rc" by auto
  with assms(1,2) EvResume show ?thesis
    by (cases outcome) (auto simp: registerAction_resume_def Let_def)
qed (use assms in \<open>auto simp: waitForNextFrame_def waitForStableFrame_def registerAction_call_def
      clear_def Let_def split: option.splits\<close>)

text \<open>
  While its executor has not completed, a call of \<open>registerAction\<close> stays suspended and
  its promise pending, whatever else happens and however long.
\<close>

lemma suspended_run:
  assumes "wf s" and "rc \<in> set (inflight s)" and "run cfg s es = Some s'"
    and "\<forall>outcome now. EvResume rc outcome now \<notin> set es"
  shows "rc \<in> set (inflight s') \<and> actionPromises s' (rc_promise rc) = None"
proof -
  have "rc \<in> set (inflight s')" using assms(2,3,4)
  proof (induction es arbitrary: s)
    case Nil
    then show ?case by simp
  next
    case (Cons e es)
    from Cons.prems(2) obtain s1 where s1: "step cfg s e = Some s1" and r: "run cfg s1 es = Some s'"
      by (auto split: option.splits)
    from Cons.prems(3) have ne: "\<forall>outcome now. e \<noteq> EvResume rc outcome now"
      and rest: "\<forall>outcome now. EvResume rc outcome now \<notin> set es" by auto
    from Cons.IH [OF suspended_step [OF Cons.prems(1) s1 ne] r rest] show ?case .
  qed
  moreover from wf_run [OF assms(1,3)] have "wf s'" .
  ultimately show ?thesis by (auto simp: wf_def list_all_iff)
qed

text \<open>
  Claim C1, on the code. \<open>clear\<close> empties the table of pending actions without settling
  their promises: the promise of an action that is pending when \<open>clear\<close> is called is
  not settled by \<open>clear\<close>, and stays unsettled through every run that follows (the timeout
  of the action finds it gone from the table and does nothing). The call is not
  settled with a \<open>Cancelled\<close> outcome; it is never settled at all.
\<close>

theorem C1_clear_abandons_pending:
  assumes "wf s" and "p \<in> set (pendingActions s)" and "run cfg (clear s) es = Some s'"
  shows "actionPromises (clear s) (pa_promise p) = None \<and> actionPromises s' (pa_promise p) = None"
  using abandoned_clear [OF assms(1,2)] abandoned_run [OF abandoned_clear [OF assms(1,2)] assms(3)]
  by (simp add: abandoned_def)

text \<open>
  On the buffer that waits for the outcome of a click: after \<open>clear\<close>, the timeout of the
  click fires at 2005 and a stable frame arrives at 2100, and the promise is pending.
\<close>

theorem C1_clear_abandons_pending_witness:
  "wf waitingBuffer \<and> pendingClick \<in> set (pendingActions waitingBuffer) \<and>
   (\<exists>s'. run DEFAULT_CONFIG (clear waitingBuffer)
            [EvFire (ActionTimer 2005 pendingClick okResult (sampleFrame 1 True (Num 100))) 2005,
             EvAddFrame (sampleFrame 2 True (Num 0)) 2100] = Some s' \<and>
         actionPromises s' (pa_promise pendingClick) = None)"
proof -
  let ?es = "[EvFire (ActionTimer 2005 pendingClick okResult (sampleFrame 1 True (Num 100))) 2005,
              EvAddFrame (sampleFrame 2 True (Num 0)) 2100]"
  have h: "0 \<le> maxSize DEFAULT_CONFIG" by (simp add: DEFAULT_CONFIG_def)
  have p: "pendingClick \<in> set (pendingActions waitingBuffer)"
    by (simp add: waitingBuffer_def new_FrameBuffer_def)
  from run_total [OF h, of "clear waitingBuffer" ?es] obtain s' where
    r: "run DEFAULT_CONFIG (clear waitingBuffer) ?es = Some s'" by blast
  from C1_clear_abandons_pending [OF wf_waitingBuffer p r] have "actionPromises s' (pa_promise pendingClick) = None"
    by simp
  with wf_waitingBuffer p r show ?thesis by blast
qed

text \<open>The same run, evaluated: the promise is pending, and no action or timer is left.\<close>

lemma clear_hangs_example:
  "map_option (\<lambda>s. (actionPromises s 0, pendingActions s, timers s))
     (run DEFAULT_CONFIG waitingBuffer
        [EvClear,
         EvFire (ActionTimer 2005 pendingClick okResult (sampleFrame 1 True (Num 100))) 2005,
         EvAddFrame (sampleFrame 2 True (Num 0)) 2100])
   = Some (None, [], [])"
  by (simp add: addFrame_def trim_small DEFAULT_CONFIG_def new_FrameBuffer_def
      emit_frame_added_def checkPendingActions_def waitingBuffer_def clear_def fireTimer_def
      pendingClick_def Let_def)

section \<open>registerAction: the executor fails\<close>

text \<open>
  Claim C3, as the code has it. An executor fails in two ways. When it returns a result
  with \<open>success = false\<close>, \<open>registerAction\<close> resolves with that result (which carries the
  error), the frame the action was based on as \<open>beforeFrame\<close>, \<open>afterFrame = null\<close> and
  \<open>causedChange = false\<close>. When it throws, \<open>registerAction\<close> rejects with the error
  thrown. In both cases no pending action and no timer is created and the buffered
  frames are unchanged.
\<close>

theorem C3_executor_failure:
  assumes "wf s" and "rc \<in> set (inflight s)"
  shows "(\<not> success res \<longrightarrow>
            actionPromises (registerAction_resume cfg s rc (ExecReturned res) now) (rc_promise rc)
              = Some (Resolved \<lparr>far_action = rc_action rc, result = res,
                                beforeFrame = Some (rc_beforeFrame rc), afterFrame = None,
                                causedChange = False, latencyMs = now - rc_startTime rc\<rparr>) \<and>
            pendingActions (registerAction_resume cfg s rc (ExecReturned res) now) = pendingActions s \<and>
            timers (registerAction_resume cfg s rc (ExecReturned res) now) = timers s \<and>
            frames (registerAction_resume cfg s rc (ExecReturned res) now) = frames s) \<and>
         actionPromises (registerAction_resume cfg s rc (ExecThrew e) now) (rc_promise rc)
           = Some (Rejected e) \<and>
         pendingActions (registerAction_resume cfg s rc (ExecThrew e) now) = pendingActions s \<and>
         timers (registerAction_resume cfg s rc (ExecThrew e) now) = timers s \<and>
         frames (registerAction_resume cfg s rc (ExecThrew e) now) = frames s"
proof -
  from assms have "actionPromises s (rc_promise rc) = None" unfolding wf_alt by metis
  with assms(2) show ?thesis
    by (simp add: registerAction_resume_def Let_def settleAction_def)
qed

text \<open>Claim C3 as written fails when the executor throws: the call is rejected.\<close>

theorem C3_executor_failure_counterexample:
  "actionPromises (registerAction_resume DEFAULT_CONFIG calledBuffer clickCall
      (ExecThrew ''Session closed'') 5) 0 = Some (Rejected ''Session closed'')"
  by (simp add: registerAction_resume_def calledBuffer_def new_FrameBuffer_def clickCall_def
      settleAction_def Let_def)

text \<open>The click whose executor reports a failure at time 5, and the one whose executor throws.\<close>

theorem C3_executor_failure_witness:
  "wf calledBuffer \<and> clickCall \<in> set (inflight calledBuffer) \<and>
   actionPromises (registerAction_resume DEFAULT_CONFIG calledBuffer clickCall
       (ExecReturned failedResult) 5) (rc_promise clickCall)
     = Some (Resolved \<lparr>far_action = clickAction, result = failedResult,
                       beforeFrame = Some (sampleFrame 1 True (Num 100)), afterFrame = None,
                       causedChange = False, latencyMs = 5\<rparr>) \<and>
   pendingActions (registerAction_resume DEFAULT_CONFIG calledBuffer clickCall
       (ExecReturned failedResult) 5) = [] \<and>
   actionPromises (registerAction_resume DEFAULT_CONFIG calledBuffer clickCall
       (ExecThrew ''Session closed'') 5) (rc_promise clickCall)
     = Some (Rejected ''Session closed'')"
proof -
  have i: "clickCall \<in> set (inflight calledBuffer)"
    by (simp add: calledBuffer_def new_FrameBuffer_def)
  have f: "\<not> success failedResult" by (simp add: failedResult_def)
  from C3_executor_failure [OF wf_calledBuffer i, of failedResult DEFAULT_CONFIG 5 "''Session closed''"] f
  have "actionPromises (registerAction_resume DEFAULT_CONFIG calledBuffer clickCall
       (ExecReturned failedResult) 5) (rc_promise clickCall)
     = Some (Resolved \<lparr>far_action = rc_action clickCall, result = failedResult,
                       beforeFrame = Some (rc_beforeFrame clickCall), afterFrame = None,
                       causedChange = False, latencyMs = 5 - rc_startTime clickCall\<rparr>)"
    and "pendingActions (registerAction_resume DEFAULT_CONFIG calledBuffer clickCall
       (ExecReturned failedResult) 5) = pendingActions calledBuffer"
    and "actionPromises (registerAction_resume DEFAULT_CONFIG calledBuffer clickCall
       (ExecThrew ''Session closed'') 5) (rc_promise clickCall)
     = Some (Rejected ''Session closed'')"
    by simp_all
  then show ?thesis using wf_calledBuffer i
    by (simp add: clickCall_def calledBuffer_def new_FrameBuffer_def)
qed

section \<open>StreamProcessor: change detection\<close>

lemma compareFrames_fail_safe:
  "\<not> comparable lib prev cur \<Longrightarrow> compareFrames lib cfg prev cur = assume_change"
  by (auto simp: comparable_def compareFrames_def Let_def split: option.splits)




text \<open>The handler that nothing overlaps, in one piece.\<close>

lemma handleScreencastFrame_unsuspended:
  "handleScreencastFrame lib cfg s eventData meta now tnow =
     (if \<not> cdpSession s then (s, None)
      else (let timeSinceLastFrame = now - lastFrameTime s;
                s1 = s\<lparr>frameCount := frameCount s + 1, lastFrameTime := now\<rparr>;
                (frame, s2) = createFrame lib cfg s1 eventData meta False tnow;
                timeSinceLastSent = now - lastSentFrameTime s2;
                shouldSend = (hasChange frame \<or> timeSinceLastSent \<ge> keepAliveMs cfg)
            in if shouldSend
               then (s2\<lparr>lastSentFrameTime := now,
                         totalDeltaTime := totalDeltaTime s2 + timeSinceLastFrame,
                         pendingFrame := Some frame\<rparr>, Some frame)
               else (s2\<lparr>droppedFrameCount := droppedFrameCount s2 + 1\<rparr>, None)))"
  by (simp add: handleScreencastFrame_def handleScreencastFrame_begin_def
      handleScreencastFrame_end_def createFrame_def Let_def split: prod.splits)

text \<open>
  Two screencast frames whose handlers overlap on the comparing path: each increments
  \<open>frameId\<close> before either reads it, so both frames carry the same id, two above the
  one before, and both were compared with the same baseline.
\<close>

lemma overlapping_handlers_share_id:
  assumes "cdpSession s"
    and "handleScreencastFrame_begin lib cfg s d1 m1 t1 = Some (h1, s1)"
    and "handleScreencastFrame_begin lib cfg s1 d2 m2 t2 = Some (h2, s2)"
    and "createFrame_end s2 (hp_frame h1) t3 = (f1, s3)"
    and "createFrame_end (fst (handleScreencastFrame_end cfg s2 h1 t3)) (hp_frame h2) t4 = (f2, s4)"
  shows "frameId f1 = sp_frameId s + 2 \<and> frameId f2 = sp_frameId s + 2"
  using assms
  by (auto simp: handleScreencastFrame_begin_def handleScreencastFrame_end_def
      createFrame_begin_def createFrame_end_def Let_def split: if_splits prod.splits)

text \<open>
  Claim C7. Whenever the pixel comparison is not performed (the capture is forced, there
  is no previous captured frame, or the comparison cannot be performed: a buffer does
  not decode, the dimensions differ or \<open>pixelmatch\<close> fails), the frame \<open>createFrame\<close>
  produces reports \<open>hasChange = true\<close> and \<open>deltaPercent = 100\<close>; no error comes out of
  it. A screencast frame in that case is forwarded by \<open>handleScreencastFrame\<close>, not
  dropped: it gets the next frame id and the count of dropped frames stays.
\<close>

theorem C7_comparison_fail_safe:
  assumes "force \<or> lastFrameData s = None \<or>
           (\<exists>prev. lastFrameData s = Some prev \<and> \<not> comparable lib prev (fromBase64 lib d))"
  shows "hasChange (fst (createFrame lib cfg s d meta force tnow)) \<and>
         deltaPercent (fst (createFrame lib cfg s d meta force tnow)) = Num 100 \<and>
         (cdpSession s \<and> \<not> force \<longrightarrow>
            (\<exists>frame s'. handleScreencastFrame lib cfg s d meta now tnow = (s', Some frame) \<and>
               hasChange frame \<and> deltaPercent frame = Num 100 \<and>
               frameId frame = sp_frameId s + 1 \<and> pendingFrame s' = Some frame \<and>
               droppedFrameCount s' = droppedFrameCount s))"
proof -
  have c: "hasChange (fst (createFrame lib cfg s0 d meta force tnow)) \<and>
           deltaPercent (fst (createFrame lib cfg s0 d meta force tnow)) = Num 100"
    if "lastFrameData s0 = lastFrameData s" for s0
    using assms that
    by (auto simp: createFrame_def createFrame_begin_def createFrame_end_def Let_def assume_change_def compareFrames_fail_safe
        split: option.splits)
  let ?s1 = "s\<lparr>frameCount := frameCount s + 1, lastFrameTime := now\<rparr>"
  have c1: "hasChange (fst (createFrame lib cfg ?s1 d meta force tnow)) \<and>
            deltaPercent (fst (createFrame lib cfg ?s1 d meta force tnow)) = Num 100"
    by (rule c) simp
  have "\<exists>frame s'. handleScreencastFrame lib cfg s d meta now tnow = (s', Some frame) \<and>
               hasChange frame \<and> deltaPercent frame = Num 100 \<and>
               frameId frame = sp_frameId s + 1 \<and> pendingFrame s' = Some frame \<and>
               droppedFrameCount s' = droppedFrameCount s"
    if "cdpSession s" and "\<not> force"
  proof -
    obtain frame s2 where cf: "createFrame lib cfg ?s1 d meta False tnow = (frame, s2)"
      by (cases "createFrame lib cfg ?s1 d meta False tnow")
    with c1 that(2) have ch: "hasChange frame" "deltaPercent frame = Num 100" by simp_all
    from cf have fid: "frameId frame = sp_frameId s + 1"
      and dr: "droppedFrameCount s2 = droppedFrameCount s"
      by (auto simp: createFrame_def createFrame_begin_def createFrame_end_def Let_def)
    from that(1) cf ch fid dr show ?thesis
      by (simp add: handleScreencastFrame_unsuspended Let_def)
  qed
  with c [of s] show ?thesis by simp
qed

text \<open>
  A processor whose last frame has four pixels receives a frame of two pixels: the
  dimensions differ, and the frame is forwarded as changed by 100 percent.
\<close>

theorem C7_comparison_fail_safe_witness:
  "lastFrameData idleProcessor = Some ''abcd'' \<and>
   \<not> comparable toyLibs ''abcd'' (fromBase64 toyLibs ''ab'') \<and>
   cdpSession idleProcessor \<and>
   (\<exists>frame s'. handleScreencastFrame toyLibs streamConfig idleProcessor ''ab'' noScroll 150 151
                  = (s', Some frame) \<and>
      hasChange frame \<and> deltaPercent frame = Num 100 \<and> frameId frame = 8 \<and>
      droppedFrameCount s' = 6)"
proof -
  have l: "lastFrameData idleProcessor = Some ''abcd''" by (simp add: idleProcessor_def)
  have n: "\<not> comparable toyLibs ''abcd'' (fromBase64 toyLibs ''ab'')"
    by (simp add: comparable_def toyLibs_def)
  from l n have h: "False \<or> lastFrameData idleProcessor = None \<or>
      (\<exists>prev. lastFrameData idleProcessor = Some prev \<and>
              \<not> comparable toyLibs prev (fromBase64 toyLibs ''ab''))"
    by simp
  have c: "cdpSession idleProcessor" by (simp add: idleProcessor_def)
  have sel: "sp_frameId idleProcessor + 1 = 8" "droppedFrameCount idleProcessor = 6"
    by (simp_all add: idleProcessor_def)
  from C7_comparison_fail_safe [OF h, of streamConfig noScroll 151 150] c
  have "\<exists>frame s'. handleScreencastFrame toyLibs streamConfig idleProcessor ''ab'' noScroll 150 151
                  = (s', Some frame) \<and>
      hasChange frame \<and> deltaPercent frame = Num 100 \<and> frameId frame = 8 \<and>
      droppedFrameCount s' = 6"
    unfolding sel by auto
  with l n c show ?thesis by blast
qed

text \<open>
  The same holds of a handler that other handlers overlap: the comparison is decided by
  what the first part reads, and the second part forwards the frame whatever has run in
  between.
\<close>

lemma fail_safe_overlapped:
  assumes "lastFrameData s = None \<or>
           (\<exists>prev. lastFrameData s = Some prev \<and> \<not> comparable lib prev (fromBase64 lib d))"
    and "handleScreencastFrame_begin lib cfg s d meta now = Some (h, s1)"
  shows "\<exists>frame s''. handleScreencastFrame_end cfg s' h tnow = (s'', Some frame) \<and>
           hasChange frame \<and> deltaPercent frame = Num 100 \<and>
           droppedFrameCount s'' = droppedFrameCount s'"
proof -
  from assms have "fp_comparison (hp_frame h) = assume_change"
    by (auto simp: handleScreencastFrame_begin_def createFrame_begin_def Let_def
        compareFrames_fail_safe split: if_splits option.splits)
  then show ?thesis
    by (simp add: handleScreencastFrame_end_def createFrame_end_def assume_change_def Let_def)
qed

section \<open>StreamProcessor: keep-alive\<close>




section \<open>waitForStableFrame\<close>

lemma waits_resolvePending [simp]:
  "stableVars (resolvePending frame now s p) = stableVars s"
  "framePromises (resolvePending frame now s p) = framePromises s"
  "listeners (resolvePending frame now s p) = listeners s"
  by (simp_all add: resolvePending_def settleAction_def Let_def)

lemma waits_checkPendingActions [simp]:
  "stableVars (checkPendingActions cfg s frame now) = stableVars s"
  "framePromises (checkPendingActions cfg s frame now) = framePromises s"
  "listeners (checkPendingActions cfg s frame now) = listeners s"
proof -
  have "stableVars (foldl (resolvePending frame now) s ps) = stableVars s \<and>
        framePromises (foldl (resolvePending frame now) s ps) = framePromises s \<and>
        listeners (foldl (resolvePending frame now) s ps) = listeners s" for ps
    by (induction ps arbitrary: s) simp_all
  then show "stableVars (checkPendingActions cfg s frame now) = stableVars s"
    "framePromises (checkPendingActions cfg s frame now) = framePromises s"
    "listeners (checkPendingActions cfg s frame now) = listeners s"
    by (simp_all add: checkPendingActions_def)
qed

text \<open>The handler of another wait leaves the variables, the promise and the listener of wait \<open>n\<close>.\<close>

lemma handler_other:
  assumes "listener_id l \<noteq> n"
  shows "stableVars (handler cfg frame now s l) n = stableVars s n"
    and "framePromises (handler cfg frame now s l) n = framePromises s n"
    and "(h \<in> set (listeners (handler cfg frame now s l)) \<and> listener_id h = n)
           = (h \<in> set (listeners s) \<and> listener_id h = n)"
  using assms
  by (cases l; auto simp: off_def clearTimeout_def settleFrame_def Let_def)+

lemma handlers_other:
  assumes "n \<notin> listener_id ` set ls"
  shows "stableVars (foldl (handler cfg frame now) s ls) n = stableVars s n \<and>
         framePromises (foldl (handler cfg frame now) s ls) n = framePromises s n \<and>
         ((h \<in> set (listeners (foldl (handler cfg frame now) s ls)) \<and> listener_id h = n)
            = (h \<in> set (listeners s) \<and> listener_id h = n))"
  using assms
proof (induction ls arbitrary: s)
  case Nil
  show ?case by simp
next
  case (Cons l ls)
  then have ne: "listener_id l \<noteq> n" and rest: "n \<notin> listener_id ` set ls" by auto
  from Cons.IH [OF rest, of "handler cfg frame now s l"] show ?case
    by (simp add: handler_other [OF ne])
qed

text \<open>The handler of \<open>waitForStableFrame\<close>, on its own wait.\<close>

lemma stable_handler_own:
  assumes "framePromises s n = None"
  shows "lastFrame (stableVars (handler cfg frame now s (StableFrameHandler n dur)) n) = Some frame"
    and "hasChange frame \<and> num_gt (deltaPercent frame) (stabilityThreshold cfg) \<Longrightarrow>
           lastChangeTime (stableVars (handler cfg frame now s (StableFrameHandler n dur)) n) = now \<and>
           framePromises (handler cfg frame now s (StableFrameHandler n dur)) n = None \<and>
           listeners (handler cfg frame now s (StableFrameHandler n dur)) = listeners s"
    and "\<not> (hasChange frame \<and> num_gt (deltaPercent frame) (stabilityThreshold cfg)) \<Longrightarrow>
           now - lastChangeTime (stableVars s n) \<ge> dur \<Longrightarrow>
           framePromises (handler cfg frame now s (StableFrameHandler n dur)) n = Some (Resolved frame) \<and>
           (\<forall>h \<in> set (listeners (handler cfg frame now s (StableFrameHandler n dur))). listener_id h \<noteq> n) \<and>
           (\<forall>t \<in> set (timers (handler cfg frame now s (StableFrameHandler n dur))). \<not> is_wait_timer n t)"
    and "\<not> (hasChange frame \<and> num_gt (deltaPercent frame) (stabilityThreshold cfg)) \<Longrightarrow>
           \<not> now - lastChangeTime (stableVars s n) \<ge> dur \<Longrightarrow>
           lastChangeTime (stableVars (handler cfg frame now s (StableFrameHandler n dur)) n)
             = lastChangeTime (stableVars s n) \<and>
           framePromises (handler cfg frame now s (StableFrameHandler n dur)) n = None \<and>
           listeners (handler cfg frame now s (StableFrameHandler n dur)) = listeners s"
  using assms
  by (auto simp: off_def clearTimeout_def settleFrame_def Let_def)


lemma emit_stable:
  assumes d: "distinct (map listener_id (listeners s))"
    and l: "StableFrameHandler n dur \<in> set (listeners s)"
    and un: "framePromises s n = None"
  shows "lastFrame (stableVars (emit_frame_added cfg s frame now) n) = Some frame \<and>
         (if hasChange frame \<and> num_gt (deltaPercent frame) (stabilityThreshold cfg)
          then lastChangeTime (stableVars (emit_frame_added cfg s frame now) n) = now \<and>
               framePromises (emit_frame_added cfg s frame now) n = None \<and>
               StableFrameHandler n dur \<in> set (listeners (emit_frame_added cfg s frame now))
          else if now - lastChangeTime (stableVars s n) \<ge> dur
          then framePromises (emit_frame_added cfg s frame now) n = Some (Resolved frame) \<and>
               StableFrameHandler n dur \<notin> set (listeners (emit_frame_added cfg s frame now))
          else lastChangeTime (stableVars (emit_frame_added cfg s frame now) n)
                 = lastChangeTime (stableVars s n) \<and>
               framePromises (emit_frame_added cfg s frame now) n = None \<and>
               StableFrameHandler n dur \<in> set (listeners (emit_frame_added cfg s frame now)))"
proof -
  note [simp del] = handler.simps
  let ?l = "StableFrameHandler n dur"
  from l obtain ls1 ls2 where split: "listeners s = ls1 @ ?l # ls2"
    by (auto dest: split_list)
  with d have n1: "n \<notin> listener_id ` set ls1" and n2: "n \<notin> listener_id ` set ls2"
    by auto
  let ?A = "foldl (handler cfg frame now) s ls1"
  let ?B = "handler cfg frame now ?A ?l"
  let ?C = "foldl (handler cfg frame now) ?B ls2"
  have C: "emit_frame_added cfg s frame now = ?C"
    by (simp add: emit_frame_added_def split)
  note A = handlers_other [OF n1, where cfg = cfg and frame = frame and now = now and s = s
      and h = ?l]
  note CB = handlers_other [OF n2, where cfg = cfg and frame = frame and now = now and s = ?B
      and h = ?l]
  from A un have unA: "framePromises ?A n = None" by simp
  from A l have lA: "?l \<in> set (listeners ?A)" by simp
  from A have tA: "lastChangeTime (stableVars ?A n) = lastChangeTime (stableVars s n)" by simp
  note own = stable_handler_own [OF unA, where cfg = cfg and frame = frame and now = now
      and dur = dur]
  have lf: "lastFrame (stableVars ?C n) = Some frame" using CB own(1) by simp
  show ?thesis
  proof (cases "hasChange frame \<and> num_gt (deltaPercent frame) (stabilityThreshold cfg)")
    case True
    from own(2) [OF True] lA CB lf show ?thesis unfolding C using True by auto
  next
    case False
    show ?thesis
    proof (cases "now - lastChangeTime (stableVars s n) \<ge> dur")
      case True
      with tA have "now - lastChangeTime (stableVars ?A n) \<ge> dur" by simp
      from own(3) [OF False this] have r: "framePromises ?B n = Some (Resolved frame)"
        and gone: "?l \<notin> set (listeners ?B)" by auto
      from CB gone have "?l \<notin> set (listeners ?C)" by simp
      with r CB lf False True show ?thesis unfolding C by auto
    next
      case later: False
      with tA have "\<not> now - lastChangeTime (stableVars ?A n) \<ge> dur" by simp
      from own(4) [OF False this] lA CB lf tA show ?thesis unfolding C using False later by auto
    qed
  qed
qed

lemma wfw_listener:
  assumes "wfw s" and "l \<in> set (listeners s)"
  shows "distinct (map listener_id (listeners s))"
    and "framePromises s (listener_id l) = None"
  using assms by (auto simp: wfw_def list_all_iff)

text \<open>The invariant of the waits, through the steps.\<close>

lemma wfw_alt:
  "wfw s \<longleftrightarrow>
     distinct (map listener_id (listeners s)) \<and>
     (\<forall>l \<in> set (listeners s). framePromises s (listener_id l) = None \<and> listener_id l < nextId s) \<and>
     (\<forall>t \<in> set (timers s). timer_fresh (nextId s) t) \<and>
     (\<forall>n \<ge> nextId s. framePromises s n = None)"
  by (auto simp: wfw_def list_all_iff)

lemma wfw_new: "wfw new_FrameBuffer"
  by (simp add: wfw_def new_FrameBuffer_def)

lemma wfw_cong:
  "listeners s' = listeners s \<Longrightarrow> framePromises s' = framePromises s \<Longrightarrow>
   nextId s' = nextId s \<Longrightarrow> timers s' = timers s \<Longrightarrow> wfw s' = wfw s"
  by (simp add: wfw_def)

lemma wfw_timers_subset: "wfw s \<Longrightarrow> set ts \<subseteq> set (timers s) \<Longrightarrow> wfw (s\<lparr>timers := ts\<rparr>)"
  by (auto simp: wfw_alt)

lemma wfw_clearTimeout: "wfw s \<Longrightarrow> wfw (clearTimeout s n)"
  unfolding clearTimeout_def by (rule wfw_timers_subset) auto

lemma wfw_off_settle:
  assumes "wfw s" and "n < nextId s"
  shows "wfw (settleFrame (off s n) n out)"
proof -
  have "distinct (map listener_id (filter (\<lambda>l. listener_id l \<noteq> n) (listeners s)))"
    using assms(1) by (simp add: wfw_alt distinct_map_filter)
  with assms show ?thesis
    by (auto simp: wfw_alt off_def settleFrame_def)
qed

lemma nextId_waits [simp]:
  "nextId (off s n) = nextId s" "nextId (clearTimeout s n) = nextId s"
  "nextId (settleFrame s n out) = nextId s"
  by (simp_all add: off_def clearTimeout_def settleFrame_def)

lemma wfw_handler:
  assumes "wfw s" and "listener_id l < nextId s"
  shows "wfw (handler cfg frame now s l)"
proof (cases l)
  case (NextFrameHandler n cur)
  with assms show ?thesis
    by (simp add: wfw_off_settle wfw_clearTimeout)
next
  case (StableFrameHandler n dur)
  let ?s1 = "s\<lparr>stableVars := (stableVars s)(n := (stableVars s n)\<lparr>lastFrame := Some frame\<rparr>)\<rparr>"
  have a: "wfw ?s1 = wfw s" by (rule wfw_cong) simp_all
  have b: "wfw (?s1\<lparr>stableVars := (stableVars ?s1)(n := (stableVars ?s1 n)\<lparr>lastChangeTime := now\<rparr>)\<rparr>)
             = wfw s" by (rule wfw_cong) simp_all
  have "wfw (settleFrame (off (clearTimeout ?s1 n) n) n (Resolved frame))"
    using assms a StableFrameHandler by (intro wfw_off_settle wfw_clearTimeout) simp_all
  with assms a b StableFrameHandler show ?thesis
    by (simp add: Let_def)
qed

lemma wfw_emit: "wfw s \<Longrightarrow> wfw (emit_frame_added cfg s frame now)"
proof -
  have "wfw s \<Longrightarrow> \<forall>l \<in> set ls. listener_id l < nextId s \<Longrightarrow>
        wfw (foldl (handler cfg frame now) s ls)" for ls
  proof (induction ls arbitrary: s)
    case Nil
    then show ?case by simp
  next
    case (Cons l ls)
    from Cons.prems have w: "wfw (handler cfg frame now s l)" by (simp add: wfw_handler)
    have "nextId (handler cfg frame now s l) = nextId s" by simp
    with Cons.prems have "\<forall>l' \<in> set ls. listener_id l' < nextId (handler cfg frame now s l)"
      by simp
    from Cons.IH [OF w this] show ?case by simp
  qed
  moreover assume "wfw s"
  ultimately show "wfw (emit_frame_added cfg s frame now)"
    by (simp add: emit_frame_added_def wfw_alt)
qed

lemma wfw_addFrame:
  assumes "wfw s" and "addFrame cfg s frame now = Some s'"
  shows "wfw s'"
proof -
  from assms(2) obtain fs where
    s': "s' = checkPendingActions cfg (emit_frame_added cfg (s\<lparr>frames := fs\<rparr>) frame now) frame now"
    by (auto simp: addFrame_def split: option.splits)
  have "wfw (s\<lparr>frames := fs\<rparr>) = wfw s" by (rule wfw_cong) simp_all
  with assms(1) have "wfw (emit_frame_added cfg (s\<lparr>frames := fs\<rparr>) frame now)"
    by (simp add: wfw_emit)
  moreover have "wfw s' = wfw (emit_frame_added cfg (s\<lparr>frames := fs\<rparr>) frame now)"
    unfolding s' by (rule wfw_cong) simp_all
  ultimately show ?thesis by simp
qed

lemma wfw_fireTimer: "wfw s \<Longrightarrow> wfw (fireTimer s t now)"
proof (cases "t \<in> set (timers s)")
  case False
  then show "wfw s \<Longrightarrow> wfw (fireTimer s t now)" by (simp add: fireTimer_def)
next
  case True
  assume w: "wfw s"
  let ?s0 = "s\<lparr>timers := remove1 t (timers s)\<rparr>"
  have w0: "wfw ?s0" using w by (rule wfw_timers_subset) (rule set_remove1_subset)
  from w True have fresh: "timer_fresh (nextId s) t" by (simp add: wfw_alt)
  show "wfw (fireTimer s t now)"
  proof (cases t)
    case (ActionTimer d pa res bf)
    have "wfw (callback ?s0 t now) = wfw ?s0"
      by (rule wfw_cong) (simp_all add: ActionTimer settleAction_def Let_def)
    with w0 True show ?thesis by (simp add: fireTimer_def)
  next
    case (NextFrameTimer d n)
    with fresh w0 have "wfw (settleFrame (off ?s0 n) n (Rejected ''Timeout waiting for next frame''))"
      by (intro wfw_off_settle) simp_all
    with True NextFrameTimer show ?thesis by (simp add: fireTimer_def)
  next
    case (StableFrameTimer d n)
    with fresh w0 have "wfw (settleFrame (off ?s0 n) n out)" for out
      by (intro wfw_off_settle) simp_all
    with True StableFrameTimer show ?thesis
      by (simp add: fireTimer_def Let_def off_def split: option.splits)
  qed
qed

lemma timer_fresh_mono: "timer_fresh k t \<Longrightarrow> k \<le> k' \<Longrightarrow> timer_fresh k' t"
  by (cases t) auto

lemma wfw_waitForNextFrame: "wfw s \<Longrightarrow> wfw (snd (waitForNextFrame s timeout now))"
  by (auto simp: wfw_alt waitForNextFrame_def Let_def intro: timer_fresh_mono)

lemma wfw_waitForStableFrame: "wfw s \<Longrightarrow> wfw (snd (waitForStableFrame s durationMs timeout now))"
  by (auto simp: wfw_alt waitForStableFrame_def Let_def intro: timer_fresh_mono)

lemma wfw_clear: "wfw s \<Longrightarrow> wfw (clear s)"
  by (simp add: wfw_def clear_def)

lemma wfw_registerAction_call: "wfw s \<Longrightarrow> wfw (snd (snd (registerAction_call s act now)))"
  by (auto simp: wfw_alt registerAction_call_def Let_def settleAction_def split: option.splits
      intro: timer_fresh_mono)

lemma wfw_registerAction_resume: "wfw s \<Longrightarrow> wfw (registerAction_resume cfg s rc outcome now)"
  by (cases outcome) (auto simp: wfw_alt registerAction_resume_def Let_def settleAction_def)

lemma wfw_step: "wfw s \<Longrightarrow> step cfg s e = Some s' \<Longrightarrow> wfw s'"
  by (cases e)
     (auto simp: wfw_addFrame wfw_fireTimer wfw_waitForNextFrame wfw_waitForStableFrame
        wfw_registerAction_call wfw_registerAction_resume wfw_clear)

lemma wfw_run: "wfw s \<Longrightarrow> run cfg s es = Some s' \<Longrightarrow> wfw s'"
proof (induction es arbitrary: s)
  case Nil
  then show ?case by simp
next
  case (Cons e es)
  then show ?case by (auto split: option.splits dest: wfw_step)
qed

lemma stableWaiting_reached:
  "run DEFAULT_CONFIG new_FrameBuffer
     [EvAddFrame (sampleFrame 1 True (Num 100)) 0, EvWaitStable 500 5000 0] = Some stableWaiting"
  by (simp add: addFrame_def trim_small DEFAULT_CONFIG_def new_FrameBuffer_def
      emit_frame_added_def checkPendingActions_def stableWaiting_def Let_def)

lemma wfw_stableWaiting: "wfw stableWaiting"
  using wfw_run [OF wfw_new stableWaiting_reached] .

lemma stableWaiting_fields:
  "listeners stableWaiting = [StableFrameHandler 0 500]"
  "timers stableWaiting = [StableFrameTimer 5000 0]"
  "lastChangeTime (stableVars stableWaiting 0) = 0"
  "lastFrame (stableVars stableWaiting 0) = Some (sampleFrame 1 True (Num 100))"
  "framePromises stableWaiting 0 = None"
  by (simp_all add: stableWaiting_def waitForStableFrame_def new_FrameBuffer_def
      getLatestFrame_def Let_def)

text \<open>
  Claim C8, as the code has it. Let a wait of \<open>waitForStableFrame\<close> be listening, in a
  state runs reach. Every frame passed to \<open>addFrame\<close> becomes the last frame of the wait.
  The frame resets the last-significant-change timestamp to the current time when its
  \<open>hasChange\<close> flag is set and its \<open>deltaPercent\<close> exceeds \<open>stabilityThreshold\<close>; on any
  other frame the wait resolves with that frame if the timestamp is at least
  \<open>durationMs\<close> old, and otherwise goes on. When the timeout fires on a wait that is
  still listening, the wait resolves with the last frame it has (the latest buffered
  when it started, or the last that arrived), and is rejected when it has none.
\<close>

theorem C8_waitForStableFrame:
  assumes "wfw s" and "StableFrameHandler n dur \<in> set (listeners s)" and "0 \<le> maxSize cfg"
  shows "(\<exists>s'. addFrame cfg s frame now = Some s' \<and>
           lastFrame (stableVars s' n) = Some frame \<and>
           (if hasChange frame \<and> num_gt (deltaPercent frame) (stabilityThreshold cfg)
            then lastChangeTime (stableVars s' n) = now \<and> framePromises s' n = None \<and>
                 StableFrameHandler n dur \<in> set (listeners s')
            else if now - lastChangeTime (stableVars s n) \<ge> dur
            then framePromises s' n = Some (Resolved frame) \<and>
                 StableFrameHandler n dur \<notin> set (listeners s')
            else lastChangeTime (stableVars s' n) = lastChangeTime (stableVars s n) \<and>
                 framePromises s' n = None \<and> StableFrameHandler n dur \<in> set (listeners s'))) \<and>
         (StableFrameTimer d n \<in> set (timers s) \<longrightarrow>
            framePromises (fireTimer s (StableFrameTimer d n) now') n =
              (case lastFrame (stableVars s n) of
                 Some f \<Rightarrow> Some (Resolved f)
               | None \<Rightarrow> Some (Rejected ''Timeout waiting for stable frame'')))"
proof -
  from wfw_listener [OF assms(1,2)] have d: "distinct (map listener_id (listeners s))"
    and un: "framePromises s n = None" by simp_all
  let ?fs = "drop (length (frames s @ [frame]) - nat (maxSize cfg)) (frames s @ [frame])"
  let ?s0 = "s\<lparr>frames := ?fs\<rparr>"
  let ?se = "emit_frame_added cfg ?s0 frame now"
  let ?s' = "checkPendingActions cfg ?se frame now"
  have run: "addFrame cfg s frame now = Some ?s'"
    using assms(3) by (simp add: addFrame_def trim_nonneg)
  have sv: "stableVars ?s0 = stableVars s" by simp
  have "distinct (map listener_id (listeners ?s0))" "StableFrameHandler n dur \<in> set (listeners ?s0)"
    "framePromises ?s0 n = None"
    using d assms(2) un by simp_all
  note e = emit_stable [OF this, where cfg = cfg and frame = frame and now = now, unfolded sv]
  have f: "stableVars ?s' = stableVars ?se" "framePromises ?s' = framePromises ?se"
    "listeners ?s' = listeners ?se"
    by (rule waits_checkPendingActions)+
  have "lastFrame (stableVars ?s' n) = Some frame \<and>
           (if hasChange frame \<and> num_gt (deltaPercent frame) (stabilityThreshold cfg)
            then lastChangeTime (stableVars ?s' n) = now \<and> framePromises ?s' n = None \<and>
                 StableFrameHandler n dur \<in> set (listeners ?s')
            else if now - lastChangeTime (stableVars s n) \<ge> dur
            then framePromises ?s' n = Some (Resolved frame) \<and>
                 StableFrameHandler n dur \<notin> set (listeners ?s')
            else lastChangeTime (stableVars ?s' n) = lastChangeTime (stableVars s n) \<and>
                 framePromises ?s' n = None \<and> StableFrameHandler n dur \<in> set (listeners ?s'))"
    unfolding f by (rule e)
  with run
  have frame_part: "\<exists>s'. addFrame cfg s frame now = Some s' \<and>
           lastFrame (stableVars s' n) = Some frame \<and>
           (if hasChange frame \<and> num_gt (deltaPercent frame) (stabilityThreshold cfg)
            then lastChangeTime (stableVars s' n) = now \<and> framePromises s' n = None \<and>
                 StableFrameHandler n dur \<in> set (listeners s')
            else if now - lastChangeTime (stableVars s n) \<ge> dur
            then framePromises s' n = Some (Resolved frame) \<and>
                 StableFrameHandler n dur \<notin> set (listeners s')
            else lastChangeTime (stableVars s' n) = lastChangeTime (stableVars s n) \<and>
                 framePromises s' n = None \<and> StableFrameHandler n dur \<in> set (listeners s'))"
    by blast
  have timeout_part: "framePromises (fireTimer s (StableFrameTimer d n) now') n =
           (case lastFrame (stableVars s n) of
              Some f \<Rightarrow> Some (Resolved f)
            | None \<Rightarrow> Some (Rejected ''Timeout waiting for stable frame''))"
    if "StableFrameTimer d n \<in> set (timers s)"
    using that un
    by (simp add: fireTimer_def off_def settleFrame_def Let_def split: option.splits)
  from frame_part timeout_part show ?thesis by blast
qed

text \<open>
  Claim C8 as written fails twice. A frame forwarded with \<open>hasChange = false\<close> and a
  \<open>deltaPercent\<close> of 1, above the threshold of 0.5, does not reset the timestamp: it
  arrives 600 ms after the wait started and resolves the wait of 500 ms. And a wait
  started on an empty buffer, with no frame until the timeout, is rejected.
\<close>

theorem C8_waitForStableFrame_counterexample:
  "num_gt (deltaPercent (sampleFrame 2 False (Num 1))) (stabilityThreshold DEFAULT_CONFIG) \<and>
   map_option (\<lambda>s. (framePromises s 0, lastChangeTime (stableVars s 0)))
     (addFrame DEFAULT_CONFIG stableWaiting (sampleFrame 2 False (Num 1)) 600)
     = Some (Some (Resolved (sampleFrame 2 False (Num 1))), 0) \<and>
   framePromises
     (fireTimer (snd (waitForStableFrame new_FrameBuffer 500 5000 0)) (StableFrameTimer 5000 0) 5000) 0
     = Some (Rejected ''Timeout waiting for stable frame'')"
  by (simp add: addFrame_def trim_small DEFAULT_CONFIG_def new_FrameBuffer_def
      emit_frame_added_def checkPendingActions_def stableWaiting_def waitForStableFrame_def
      getLatestFrame_def sampleFrame_def off_def clearTimeout_def settleFrame_def fireTimer_def
      Let_def)

text \<open>
  A wait of 500 ms started at time 0 on a buffer holding frame 1: a changed frame at 600
  resets the timestamp, a quiet frame at 600 resolves the wait, a quiet frame at 300 does
  not, and the timeout resolves the wait with frame 1.
\<close>

theorem C8_waitForStableFrame_witness:
  "wfw stableWaiting \<and> StableFrameHandler 0 500 \<in> set (listeners stableWaiting) \<and>
   0 \<le> maxSize DEFAULT_CONFIG \<and>
   (\<exists>s'. addFrame DEFAULT_CONFIG stableWaiting (sampleFrame 2 True (Num 30)) 600 = Some s' \<and>
         lastChangeTime (stableVars s' 0) = 600 \<and> framePromises s' 0 = None) \<and>
   (\<exists>s'. addFrame DEFAULT_CONFIG stableWaiting (sampleFrame 2 False (Num 0)) 600 = Some s' \<and>
         framePromises s' 0 = Some (Resolved (sampleFrame 2 False (Num 0)))) \<and>
   (\<exists>s'. addFrame DEFAULT_CONFIG stableWaiting (sampleFrame 2 False (Num 0)) 300 = Some s' \<and>
         lastChangeTime (stableVars s' 0) = 0 \<and> framePromises s' 0 = None) \<and>
   framePromises (fireTimer stableWaiting (StableFrameTimer 5000 0) 5000) 0
     = Some (Resolved (sampleFrame 1 True (Num 100)))"
proof -
  have l: "StableFrameHandler 0 500 \<in> set (listeners stableWaiting)"
    by (simp add: stableWaiting_fields)
  have h: "0 \<le> maxSize DEFAULT_CONFIG" by (simp add: DEFAULT_CONFIG_def)
  have t: "StableFrameTimer 5000 0 \<in> set (timers stableWaiting)"
    by (simp add: stableWaiting_fields)
  note th = C8_waitForStableFrame [OF wfw_stableWaiting l h]
  have a: "\<exists>s'. addFrame DEFAULT_CONFIG stableWaiting (sampleFrame 2 True (Num 30)) 600 = Some s' \<and>
         lastChangeTime (stableVars s' 0) = 600 \<and> framePromises s' 0 = None"
    using th [of "sampleFrame 2 True (Num 30)" 600]
    by (auto simp: sampleFrame_def DEFAULT_CONFIG_def stableWaiting_fields)
  have b: "\<exists>s'. addFrame DEFAULT_CONFIG stableWaiting (sampleFrame 2 False (Num 0)) 600 = Some s' \<and>
         framePromises s' 0 = Some (Resolved (sampleFrame 2 False (Num 0)))"
    using th [of "sampleFrame 2 False (Num 0)" 600]
    by (auto simp: sampleFrame_def DEFAULT_CONFIG_def stableWaiting_fields)
  have c: "\<exists>s'. addFrame DEFAULT_CONFIG stableWaiting (sampleFrame 2 False (Num 0)) 300 = Some s' \<and>
         lastChangeTime (stableVars s' 0) = 0 \<and> framePromises s' 0 = None"
    using th [of "sampleFrame 2 False (Num 0)" 300]
    by (auto simp: sampleFrame_def DEFAULT_CONFIG_def stableWaiting_fields)
  have d: "framePromises (fireTimer stableWaiting (StableFrameTimer 5000 0) 5000) 0
     = Some (Resolved (sampleFrame 1 True (Num 100)))"
    using th [of "sampleFrame 2 False (Num 0)" 300 5000 5000] t
    by (simp add: stableWaiting_fields)
  from wfw_stableWaiting l h a b c d show ?thesis by blast
qed

end
